theory Spec2Isabelle
  imports Complex_Main "HOL-Library.Multiset"
begin

unbundle bit_operations_syntax

section \<open>Errors\<close>

text \<open>
  Every exception that \<^verbatim>\<open>pokerstars.py\<close> or the library calls it makes can raise is a
  value. \<open>KeyError\<close> carries the key that was looked up; the two \<open>ValueError\<close>s raised by
  the source itself carry what their message is formatted from.
\<close>

datatype key = CharKey char | IntKey nat

datatype error =
    IndexError
  | KeyError key
  | ValueError_invalid_card key
  | ValueError_not_available string
  | ValueError_sample
  | ValueError_min
  | ZeroDivisionError

section \<open>validate\_cards\<close>

definition valid_ranks :: string where
  "valid_ranks = ''23456789TJQKA''"

definition valid_suits :: string where
  "valid_suits = ''shdc''"

text \<open>
  The loop of \<^verbatim>\<open>validate_cards\<close> with its early \<^verbatim>\<open>return False\<close>. The length test comes
  first and short-circuits, so the two index reads only happen on a two-character token.
\<close>

fun validate_cards :: "string list \<Rightarrow> bool" where
  "validate_cards [] = True"
| "validate_cards (crd # cards) =
     (if length crd \<noteq> 2 \<or> crd ! 0 \<notin> set valid_ranks \<or> crd ! 1 \<notin> set valid_suits
      then False
      else validate_cards cards)"

section \<open>The card library\<close>

text \<open>
  \<^verbatim>\<open>Card\<close>, \<^verbatim>\<open>Deck\<close> and \<^verbatim>\<open>Evaluator\<close> come from the external package \<^verbatim>\<open>treys\<close>. A card is
  a Python integer with the rank bit, the suit, the rank and the rank's prime packed into
  bit fields. \<^verbatim>\<open>Card.new\<close> reads characters 0 and 1 of the token (an \<open>IndexError\<close> when
  the token is shorter, characters beyond the second are never looked at) and then looks
  up the rank and the suit, in this order, in two dictionaries (a \<open>KeyError\<close> on a miss).
\<close>

definition STR_RANKS :: string where
  "STR_RANKS = ''23456789TJQKA''"

definition PRIMES :: "int list" where
  "PRIMES = [2, 3, 5, 7, 11, 13, 17, 19, 23, 29, 31, 37, 41]"

definition CHAR_RANK_TO_INT_RANK :: "char \<rightharpoonup> nat" where
  "CHAR_RANK_TO_INT_RANK = map_of (zip STR_RANKS [0..<13])"

definition CHAR_SUIT_TO_INT_SUIT :: "char \<rightharpoonup> int" where
  "CHAR_SUIT_TO_INT_SUIT =
     map_of [(CHR ''s'', 1), (CHR ''h'', 2), (CHR ''d'', 4), (CHR ''c'', 8)]"

definition INT_SUIT_TO_CHAR_SUIT :: string where
  "INT_SUIT_TO_CHAR_SUIT = ''xshxdxxxc''"

definition Card_new :: "string \<Rightarrow> error + int" where
  "Card_new string =
     (if length string < 2 then Inl IndexError
      else case CHAR_RANK_TO_INT_RANK (string ! 0) of
        None \<Rightarrow> Inl (KeyError (CharKey (string ! 0)))
      | Some rank_int \<Rightarrow>
         (case CHAR_SUIT_TO_INT_SUIT (string ! 1) of
            None \<Rightarrow> Inl (KeyError (CharKey (string ! 1)))
          | Some suit_int \<Rightarrow>
              Inr (push_bit 16 (push_bit rank_int 1) OR push_bit 12 suit_int
                   OR push_bit 8 (int rank_int) OR PRIMES ! rank_int)))"

definition get_rank_int :: "int \<Rightarrow> nat" where
  "get_rank_int card_int = nat (drop_bit 8 card_int AND 15)"

definition get_suit_int :: "int \<Rightarrow> nat" where
  "get_suit_int card_int = nat (drop_bit 12 card_int AND 15)"

definition int_to_str :: "int \<Rightarrow> error + string" where
  "int_to_str card_int =
     (let rank_int = get_rank_int card_int; suit_int = get_suit_int card_int
      in if rank_int < length STR_RANKS \<and> suit_int < length INT_SUIT_TO_CHAR_SUIT
         then Inr [STR_RANKS ! rank_int, INT_SUIT_TO_CHAR_SUIT ! suit_int]
         else Inl IndexError)"

text \<open>
  \<^verbatim>\<open>Deck.GetFullDeck\<close>: one card for every rank of \<^verbatim>\<open>STR_RANKS\<close> and, inside, every suit
  in the order \<^verbatim>\<open>s h d c\<close>. Each of these tokens is parsed by \<^verbatim>\<open>Card.new\<close>.
\<close>

definition card_of :: "string \<Rightarrow> int" where
  "card_of string = (case Card_new string of Inr c \<Rightarrow> c | Inl _ \<Rightarrow> 0)"

definition GetFullDeck :: "int list" where
  "GetFullDeck = concat (map (\<lambda>rank. map (\<lambda>suit. card_of [rank, suit]) ''shdc'') STR_RANKS)"

section \<open>The random source\<close>

text \<open>
  The source draws from Python's global generator: \<^verbatim>\<open>Deck()\<close> shuffles with
  \<^verbatim>\<open>random.shuffle\<close> and every trial calls \<^verbatim>\<open>random.sample\<close>. The generator is a
  parameter here: a step function \<open>rnd\<close> that turns a generator state into a raw number
  and the next state. All draws of one call thread one state, as the global generator
  does (a version of \<^verbatim>\<open>treys\<close> whose deck shuffles with a generator of its own is
  covered when \<open>rnd\<close> stands for the two generators taken together, the deck's numbers
  first). \<open>randbelow\<close> reduces a raw number to \<open>{0..<n}\<close>. The library is not part of the
  repository; where CPython draws fresh bits until the number is below \<open>n\<close>, the model
  takes one raw number modulo \<open>n\<close>, so that \<open>randbelow\<close> returns for every generator.
\<close>

definition randbelow :: "('s \<Rightarrow> nat \<times> 's) \<Rightarrow> nat \<Rightarrow> 's \<Rightarrow> nat \<times> 's" where
  "randbelow rnd n s = (case rnd s of (r, s') \<Rightarrow> (r mod n, s'))"

text \<open>
  \<^verbatim>\<open>random.shuffle(x)\<close>: for \<open>i\<close> from \<open>len(x) - 1\<close> down to \<open>1\<close>, pick \<open>j\<close> below \<open>i + 1\<close> and
  swap \<open>x[i]\<close> with \<open>x[j]\<close>.
\<close>

fun shuffle_loop :: "('s \<Rightarrow> nat \<times> 's) \<Rightarrow> nat \<Rightarrow> 'a list \<Rightarrow> 's \<Rightarrow> 'a list \<times> 's" where
  "shuffle_loop rnd 0 x s = (x, s)"
| "shuffle_loop rnd (Suc i) x s =
     (case randbelow rnd (Suc i + 1) s of
        (j, s') \<Rightarrow> shuffle_loop rnd i (x[Suc i := x ! j, j := x ! Suc i]) s')"

definition shuffle :: "('s \<Rightarrow> nat \<times> 's) \<Rightarrow> 'a list \<Rightarrow> 's \<Rightarrow> 'a list \<times> 's" where
  "shuffle rnd x s = shuffle_loop rnd (length x - 1) x s"

text \<open>
  \<^verbatim>\<open>random.sample(population, k)\<close>: a \<open>ValueError\<close> unless \<open>0 \<le> k \<le> len(population)\<close>.
  Otherwise CPython picks in one of two ways, by the size \<open>n\<close> of the population. Up to
  \<open>setsize\<close> elements (21 for \<open>k \<le> 5\<close>) it picks \<open>k\<close> times from a private copy of the
  population, the picked slot being refilled with the last live element of the copy. A
  larger population is not copied: \<open>k\<close> times a position below \<open>n\<close> is drawn, and drawn
  again for as long as it is in the set of the positions taken before. The population
  itself is left as it is in both cases.
\<close>

text \<open>
  \<^verbatim>\<open>_ceil(_log(k * 3, 4))\<close>, the floating point logarithm taken as exact: the least \<open>e\<close>
  with \<open>3k \<le> 4\<^sup>e\<close>. It is looked at for \<open>k > 5\<close> only.
\<close>

definition ceil_log4 :: "nat \<Rightarrow> nat" where
  "ceil_log4 x = length (takeWhile (\<lambda>e. 4 ^ e < x) [0..<x])"

definition setsize :: "nat \<Rightarrow> nat" where
  "setsize k = (if 5 < k then 21 + 4 ^ ceil_log4 (k * 3) else 21)"

text \<open>The first way: the loop over the copy \<^verbatim>\<open>pool\<close>.\<close>

fun sample_loop :: "('s \<Rightarrow> nat \<times> 's) \<Rightarrow> nat \<Rightarrow> 'a list \<Rightarrow> 's \<Rightarrow> 'a list \<times> 's" where
  "sample_loop rnd 0 pool s = ([], s)"
| "sample_loop rnd (Suc k) pool s =
     (case randbelow rnd (length pool) s of
        (j, s') \<Rightarrow>
          (case sample_loop rnd k (butlast (pool[j := last pool])) s' of
             (result, s'') \<Rightarrow> (pool ! j # result, s'')))"

text \<open>
  The second way. \<^verbatim>\<open>while j in selected: j = randbelow(n)\<close> need not end: with a generator
  that keeps producing taken positions it runs forever, which is the value \<open>None\<close>.
\<close>

partial_function (option) redraw ::
  "('s \<Rightarrow> nat \<times> 's) \<Rightarrow> nat \<Rightarrow> nat set \<Rightarrow> nat \<Rightarrow> 's \<Rightarrow> (nat \<times> 's) option" where
  "redraw rnd n selected j s =
     (if j \<in> selected
      then (case randbelow rnd n s of (j', s') \<Rightarrow> redraw rnd n selected j' s')
      else Some (j, s))"

declare redraw.simps [code]

fun select_loop ::
  "('s \<Rightarrow> nat \<times> 's) \<Rightarrow> nat \<Rightarrow> 'a list \<Rightarrow> nat set \<Rightarrow> 's \<Rightarrow> ('a list \<times> 's) option" where
  "select_loop rnd 0 population selected s = Some ([], s)"
| "select_loop rnd (Suc k) population selected s =
     (case randbelow rnd (length population) s of
        (j0, s0) \<Rightarrow>
          (case redraw rnd (length population) selected j0 s0 of
             None \<Rightarrow> None
           | Some (j, s') \<Rightarrow>
              (case select_loop rnd k population (insert j selected) s' of
                 None \<Rightarrow> None
               | Some (result, s'') \<Rightarrow> Some (population ! j # result, s''))))"

definition sample ::
  "('s \<Rightarrow> nat \<times> 's) \<Rightarrow> 'a list \<Rightarrow> int \<Rightarrow> 's \<Rightarrow> (error + ('a list \<times> 's)) option" where
  "sample rnd population k s =
     (if 0 \<le> k \<and> k \<le> int (length population)
      then if length population \<le> setsize (nat k)
           then Some (Inr (sample_loop rnd (nat k) population s))
           else (case select_loop rnd (nat k) population {} s of
                   None \<Rightarrow> None
                 | Some r \<Rightarrow> Some (Inr r))
      else Some (Inl ValueError_sample))"

text \<open>\<^verbatim>\<open>Deck()\<close>: a fresh copy of the full deck, shuffled.\<close>

definition Deck_new :: "('s \<Rightarrow> nat \<times> 's) \<Rightarrow> 's \<Rightarrow> int list \<times> 's" where
  "Deck_new rnd s = shuffle rnd GetFullDeck s"

text \<open>
  \<^verbatim>\<open>Evaluator.evaluate(cards, board)\<close> concatenates its two arguments and dispatches on
  the number of cards through a dictionary with the keys 5, 6 and 7 (a \<open>KeyError\<close> on any
  other length). The rank tables behind the three entries are a parameter \<open>rank_of\<close>: a
  pure function from the cards to the hand rank, lower being stronger.
\<close>

definition evaluate :: "(int list \<Rightarrow> int) \<Rightarrow> int list \<Rightarrow> int list \<Rightarrow> error + int" where
  "evaluate rank_of cards board =
     (let all_cards = cards @ board
      in if length all_cards \<in> {5, 6, 7} then Inr (rank_of all_cards)
         else Inl (KeyError (IntKey (length all_cards))))"

section \<open>calculate\_win\_probability: setup\<close>

text \<open>The list comprehension \<^verbatim>\<open>[Card.new(card) for card in cards]\<close>: the first failure ends it.\<close>

fun cards_new :: "string list \<Rightarrow> error + int list" where
  "cards_new [] = Inr []"
| "cards_new (crd # cards) =
     (case Card_new crd of
        Inl e \<Rightarrow> Inl e
      | Inr c \<Rightarrow> (case cards_new cards of Inl e \<Rightarrow> Inl e | Inr cs \<Rightarrow> Inr (c # cs)))"

text \<open>
  The \<^verbatim>\<open>try\<close> block: a \<open>KeyError\<close> of either comprehension is re-raised as the
  \<open>ValueError\<close> "Invalid card"; any other exception passes through.
\<close>

definition except_KeyError :: "error \<Rightarrow> error" where
  "except_KeyError e = (case e of KeyError k \<Rightarrow> ValueError_invalid_card k | _ \<Rightarrow> e)"

definition convert_cards :: "string list \<Rightarrow> string list \<Rightarrow> error + (int list \<times> int list)" where
  "convert_cards hole_cards board_cards =
     (case cards_new hole_cards of
        Inl e \<Rightarrow> Inl (except_KeyError e)
      | Inr hole_card_ints \<Rightarrow>
         (case cards_new board_cards of
            Inl e \<Rightarrow> Inl (except_KeyError e)
          | Inr board_card_ints \<Rightarrow> Inr (hole_card_ints, board_card_ints)))"

text \<open>
  The removal loop over \<^verbatim>\<open>hole_card_ints + board_card_ints\<close>. \<^verbatim>\<open>list.remove\<close> deletes the
  first occurrence, which is \<open>remove1\<close>. A card that is no longer in the deck raises the
  \<open>ValueError\<close> whose message names the card through \<^verbatim>\<open>Card.int_to_str\<close>.
\<close>

fun remove_used :: "int list \<Rightarrow> int list \<Rightarrow> error + int list" where
  "remove_used [] deck_cards = Inr deck_cards"
| "remove_used (crd # rest) deck_cards =
     (if crd \<in> set deck_cards then remove_used rest (remove1 crd deck_cards)
      else (case int_to_str crd of
              Inl e \<Rightarrow> Inl e
            | Inr name \<Rightarrow> Inl (ValueError_not_available name)))"

section \<open>calculate\_win\_probability: the trial loop\<close>

text \<open>
  Everything the loop body can reach: the deck's card list, the two converted card
  lists, the win counter and the state of the random generator.
\<close>

record 's sim_state =
  deck_cards :: "int list"
  hole_card_ints :: "int list"
  board_card_ints :: "int list"
  wins :: nat
  rng_state :: 's

text \<open>
  The calls below return \<open>None\<close> when a \<^verbatim>\<open>sample\<close> in them does not return, \<open>Some (Inl e)\<close>
  when an exception \<open>e\<close> is raised, and \<open>Some (Inr v)\<close> when they return \<open>v\<close>.
\<close>

text \<open>
  \<^verbatim>\<open>opponents_hands = [sample(deck.cards, 2) for _ in range(num_players - 1)]\<close>: each hand
  is a sample of its own from the same card list.
\<close>

fun deal_opponents ::
  "('s \<Rightarrow> nat \<times> 's) \<Rightarrow> int list \<Rightarrow> nat \<Rightarrow> 's \<Rightarrow> (error + (int list list \<times> 's)) option" where
  "deal_opponents rnd cards 0 s = Some (Inr ([], s))"
| "deal_opponents rnd cards (Suc n) s =
     (case sample rnd cards 2 s of
        None \<Rightarrow> None
      | Some (Inl e) \<Rightarrow> Some (Inl e)
      | Some (Inr (hand, s')) \<Rightarrow>
         (case deal_opponents rnd cards n s' of
            None \<Rightarrow> None
          | Some (Inl e) \<Rightarrow> Some (Inl e)
          | Some (Inr (hands, s'')) \<Rightarrow> Some (Inr (hand # hands, s''))))"

text \<open>
  \<^verbatim>\<open>remaining_board\<close>: a sample of \<open>5 - len(board_cards)\<close> cards from the deck's cards
  that are in no opponent's hand.
\<close>

definition deal_board ::
  "('s \<Rightarrow> nat \<times> 's) \<Rightarrow> int list \<Rightarrow> string list \<Rightarrow> int list list \<Rightarrow> 's
     \<Rightarrow> (error + (int list \<times> 's)) option" where
  "deal_board rnd cards board_cards opponents_hands s =
     sample rnd (filter (\<lambda>c. c \<notin> set (concat opponents_hands)) cards)
       (5 - int (length board_cards)) s"

text \<open>Lines 62 to 66: the opponents' hands, the drawn board cards and the final board.\<close>

definition deal ::
  "('s \<Rightarrow> nat \<times> 's) \<Rightarrow> string list \<Rightarrow> int \<Rightarrow> 's sim_state
     \<Rightarrow> (error + (int list list \<times> int list \<times> int list \<times> 's)) option" where
  "deal rnd board_cards num_players st =
     (case deal_opponents rnd (deck_cards st) (nat (num_players - 1)) (rng_state st) of
        None \<Rightarrow> None
      | Some (Inl e) \<Rightarrow> Some (Inl e)
      | Some (Inr (opponents_hands, s1)) \<Rightarrow>
         (case deal_board rnd (deck_cards st) board_cards opponents_hands s1 of
            None \<Rightarrow> None
          | Some (Inl e) \<Rightarrow> Some (Inl e)
          | Some (Inr (remaining_board, s2)) \<Rightarrow>
              Some (Inr (opponents_hands, remaining_board,
                         board_card_ints st @ remaining_board, s2))))"

fun evaluate_all ::
  "(int list \<Rightarrow> int) \<Rightarrow> int list \<Rightarrow> int list list \<Rightarrow> error + int list" where
  "evaluate_all rank_of final_board [] = Inr []"
| "evaluate_all rank_of final_board (opp_hand # hands) =
     (case evaluate rank_of final_board opp_hand of
        Inl e \<Rightarrow> Inl e
      | Inr score \<Rightarrow>
         (case evaluate_all rank_of final_board hands of
            Inl e \<Rightarrow> Inl e
          | Inr scores \<Rightarrow> Inr (score # scores)))"

text \<open>Python's \<^verbatim>\<open>min\<close> of a list: a \<open>ValueError\<close> on the empty list.\<close>

definition py_min :: "int list \<Rightarrow> error + int" where
  "py_min xs = (case xs of [] \<Rightarrow> Inl ValueError_min | x # ys \<Rightarrow> Inr (fold min ys x))"

text \<open>Lines 76 to 78: the counter after the comparison of one trial.\<close>

definition count_win :: "nat \<Rightarrow> int \<Rightarrow> int list \<Rightarrow> error + nat" where
  "count_win w hero_score opponent_scores =
     (case py_min opponent_scores of
        Inl e \<Rightarrow> Inl e
      | Inr best \<Rightarrow> Inr (if hero_score \<le> best then w + 1 else w))"

text \<open>
  One pass through the loop body. It assigns to \<^verbatim>\<open>wins\<close> only; the generator's state
  moves with the draws.
\<close>

definition trial ::
  "(int list \<Rightarrow> int) \<Rightarrow> ('s \<Rightarrow> nat \<times> 's) \<Rightarrow> string list \<Rightarrow> int \<Rightarrow> 's sim_state
     \<Rightarrow> (error + 's sim_state) option" where
  "trial rank_of rnd board_cards num_players st =
     (case deal rnd board_cards num_players st of
        None \<Rightarrow> None
      | Some (Inl e) \<Rightarrow> Some (Inl e)
      | Some (Inr (opponents_hands, remaining_board, final_board, s')) \<Rightarrow>
         (case evaluate rank_of final_board (hole_card_ints st) of
            Inl e \<Rightarrow> Some (Inl e)
          | Inr hero_score \<Rightarrow>
             (case evaluate_all rank_of final_board opponents_hands of
                Inl e \<Rightarrow> Some (Inl e)
              | Inr opponent_scores \<Rightarrow>
                 (case count_win (wins st) hero_score opponent_scores of
                    Inl e \<Rightarrow> Some (Inl e)
                  | Inr w \<Rightarrow> Some (Inr (st\<lparr>wins := w, rng_state := s'\<rparr>))))))"

fun run_trials ::
  "(int list \<Rightarrow> int) \<Rightarrow> ('s \<Rightarrow> nat \<times> 's) \<Rightarrow> string list \<Rightarrow> int \<Rightarrow> nat \<Rightarrow> 's sim_state
     \<Rightarrow> (error + 's sim_state) option" where
  "run_trials rank_of rnd board_cards num_players 0 st = Some (Inr st)"
| "run_trials rank_of rnd board_cards num_players (Suc n) st =
     (case trial rank_of rnd board_cards num_players st of
        None \<Rightarrow> None
      | Some (Inl e) \<Rightarrow> Some (Inl e)
      | Some (Inr st') \<Rightarrow> run_trials rank_of rnd board_cards num_players n st')"

section \<open>calculate\_win\_probability\<close>

text \<open>
  The state the loop starts from: a freshly shuffled deck with the hero's and the board's
  cards removed, and no win counted.
\<close>

definition initial_state ::
  "('s \<Rightarrow> nat \<times> 's) \<Rightarrow> 's \<Rightarrow> string list \<Rightarrow> string list \<Rightarrow> error + 's sim_state" where
  "initial_state rnd s0 hole_cards board_cards =
     (case Deck_new rnd s0 of
        (deck0, s1) \<Rightarrow>
          (case convert_cards hole_cards board_cards of
             Inl e \<Rightarrow> Inl e
           | Inr (hole_ints, board_ints) \<Rightarrow>
              (case remove_used (hole_ints @ board_ints) deck0 of
                 Inl e \<Rightarrow> Inl e
               | Inr remaining \<Rightarrow>
                   Inr \<lparr>deck_cards = remaining, hole_card_ints = hole_ints,
                        board_card_ints = board_ints, wins = 0, rng_state = s1\<rparr>)))"

text \<open>
  \<^verbatim>\<open>range(num_simulations)\<close> is empty for a negative count. The final division is Python's
  true division, a \<open>ZeroDivisionError\<close> for zero simulations; the quotient is taken in the
  reals.
\<close>

definition calculate_win_probability ::
  "(int list \<Rightarrow> int) \<Rightarrow> ('s \<Rightarrow> nat \<times> 's) \<Rightarrow> 's \<Rightarrow> string list \<Rightarrow> string list \<Rightarrow> int \<Rightarrow> int
     \<Rightarrow> (error + real) option" where
  "calculate_win_probability rank_of rnd s0 hole_cards board_cards num_players num_simulations =
     (case initial_state rnd s0 hole_cards board_cards of
        Inl e \<Rightarrow> Some (Inl e)
      | Inr st0 \<Rightarrow>
         (case run_trials rank_of rnd board_cards num_players (nat num_simulations) st0 of
            None \<Rightarrow> None
          | Some (Inl e) \<Rightarrow> Some (Inl e)
          | Some (Inr st) \<Rightarrow>
              if num_simulations = 0 then Some (Inl ZeroDivisionError)
              else Some (Inr (real (wins st) / real_of_int num_simulations * 100))))"

section \<open>Inputs\<close>

text \<open>
  What the caller at the end of the file checks before it calls
  \<^verbatim>\<open>calculate_win_probability\<close>: two hole cards, at most five board cards, and
  \<^verbatim>\<open>validate_cards\<close> on all of them. A valid input in addition names no card twice.
\<close>

definition valid_input :: "string list \<Rightarrow> string list \<Rightarrow> bool" where
  "valid_input hole_cards board_cards \<longleftrightarrow>
     length hole_cards = 2 \<and> length board_cards \<le> 5 \<and>
     validate_cards (hole_cards @ board_cards) \<and> distinct (hole_cards @ board_cards)"

text \<open>The 52 tokens that \<^verbatim>\<open>validate_cards\<close> accepts.\<close>

definition all_tokens :: "string list" where
  "all_tokens = concat (map (\<lambda>r. map (\<lambda>s. [r, s]) valid_suits) valid_ranks)"

text \<open>The sequence of raw numbers a generator produces from a state.\<close>

definition rng_stream :: "('s \<Rightarrow> nat \<times> 's) \<Rightarrow> 's \<Rightarrow> nat \<Rightarrow> nat" where
  "rng_stream rnd s n = fst (rnd (((\<lambda>t. snd (rnd t)) ^^ n) s))"

text \<open>
  A generator with which every redraw ends: from every state and for every bound \<open>n\<close>,
  each position below \<open>n\<close> comes up after finitely many draws. Python's generator is taken
  to be one; a generator that repeats one number forever is none.
\<close>

definition fair :: "('s \<Rightarrow> nat \<times> 's) \<Rightarrow> bool" where
  "fair rnd \<longleftrightarrow> (\<forall>s n j. j < n \<longrightarrow> (\<exists>m. rng_stream rnd s m mod n = j))"

text \<open>
  Two concrete generators and a concrete rank function for running the model on
  concrete inputs: a counter (the raw numbers 0, 1, 2, 3, ... from state 0), a counter
  that gives every number twice (0, 0, 1, 1, 2, 2, ...), and the negated sum of the ranks
  of the cards as the hand rank.
\<close>

definition counter_rng :: "nat \<Rightarrow> nat \<times> nat" where
  "counter_rng s = (s, s + 1)"

definition twice_rng :: "nat \<Rightarrow> nat \<times> nat" where
  "twice_rng s = (s div 2, s + 1)"

definition rank_sum :: "int list \<Rightarrow> int" where
  "rank_sum cards = - sum_list (map (\<lambda>c. int (get_rank_int c)) cards)"

text \<open>
  What the setup establishes of the loop's state for a valid input and what every pass
  through the loop relies on: the deck holds each card once, the two hole cards and the
  known board cards are not in it (50 cards less the board), and the converted lists
  have the lengths of the inputs.
\<close>

definition prepared :: "string list \<Rightarrow> 's sim_state \<Rightarrow> bool" where
  "prepared board_cards st \<longleftrightarrow>
     distinct (deck_cards st) \<and>
     length (deck_cards st) = 50 - length board_cards \<and>
     length board_cards \<le> 5 \<and>
     length (board_card_ints st) = length board_cards \<and>
     length (hole_card_ints st) = 2"

section \<open>Validation of the tokens\<close>

lemma validate_cards_all:
  "validate_cards cards \<longleftrightarrow>
     (\<forall>c \<in> set cards. length c = 2 \<and> c ! 0 \<in> set valid_ranks \<and> c ! 1 \<in> set valid_suits)"
  by (induction cards) auto

text \<open>
  Claim C4: \<open>validate_cards\<close> returns \<open>True\<close> exactly when every token has two
  characters, the first one of \<^verbatim>\<open>23456789TJQKA\<close> and the second one of \<^verbatim>\<open>shdc\<close>; a token
  of another length, with an unknown rank or with an unknown suit makes it \<open>False\<close>.
\<close>

theorem validate_cards_iff:
  "validate_cards cards \<longleftrightarrow>
     (\<forall>c \<in> set cards. length c = 2 \<and> c ! 0 \<in> set ''23456789TJQKA'' \<and> c ! 1 \<in> set ''shdc'')"
  unfolding validate_cards_all valid_ranks_def valid_suits_def ..

theorem validate_cards_iff_witness: "validate_cards [''As'', ''Kd'']"
  unfolding validate_cards_iff by simp

section \<open>Shuffling and sampling keep the cards\<close>

lemma randbelow_less: "0 < n \<Longrightarrow> fst (randbelow rnd n s) < n"
  by (simp add: randbelow_def split: prod.splits)

lemma shuffle_loop_mset:
  "i < length x \<Longrightarrow> mset (fst (shuffle_loop rnd i x s)) = mset x"
proof (induction i arbitrary: x s)
  case 0
  then show ?case by simp
next
  case (Suc i)
  obtain j s' where r: "randbelow rnd (Suc i + 1) s = (j, s')"
    by (cases "randbelow rnd (Suc i + 1) s")
  have "j < Suc i + 1"
    using randbelow_less [of "Suc i + 1" rnd s] r by simp
  with Suc.prems have j: "j < length x" by simp
  have "mset (x[Suc i := x ! j, j := x ! Suc i]) = mset x"
    using mset_swap [OF j, of "Suc i"] Suc.prems by simp
  moreover have "i < length (x[Suc i := x ! j, j := x ! Suc i])"
    using Suc.prems by simp
  ultimately show ?case
    using Suc.IH [of "x[Suc i := x ! j, j := x ! Suc i]" s'] r by simp
qed

lemma shuffle_mset: "mset (fst (shuffle rnd x s)) = mset x"
proof (cases x)
  case Nil
  then show ?thesis by (simp add: shuffle_def)
next
  case (Cons a as)
  then show ?thesis by (simp add: shuffle_def shuffle_loop_mset)
qed

lemma GetFullDeck_eval:
  "GetFullDeck = [69634, 73730, 81922, 98306, 135427, 139523, 147715, 164099, 266757,
  270853, 279045, 295429, 529159, 533255, 541447, 557831, 1053707, 1057803,
  1065995, 1082379, 2102541, 2106637, 2114829, 2131213, 4199953, 4204049,
  4212241, 4228625, 8394515, 8398611, 8406803, 8423187, 16783383, 16787479,
  16795671, 16812055, 33560861, 33564957, 33573149, 33589533, 67115551,
  67119647, 67127839, 67144223, 134224677, 134228773, 134236965, 134253349,
  268442665, 268446761, 268454953, 268471337]"
  by code_simp

lemma GetFullDeck_distinct: "distinct GetFullDeck"
  by code_simp

lemma GetFullDeck_length: "length GetFullDeck = 52"
  by (simp add: GetFullDeck_def STR_RANKS_def)

lemma pool_step_mset:
  assumes "j < length pool"
  shows "mset (butlast (pool[j := last pool])) = mset pool - {#pool ! j#}"
proof (cases pool rule: rev_cases)
  case Nil
  with assms show ?thesis by simp
next
  case (snoc ys l)
  show ?thesis
  proof (cases "j = length ys")
    case True
    with snoc show ?thesis by simp
  next
    case False
    with assms snoc have j: "j < length ys" by simp
    then show ?thesis
      using snoc by (simp add: list_update_append nth_append mset_update)
  qed
qed


lemma sample_loop_mset:
  "k \<le> length pool \<Longrightarrow> mset (fst (sample_loop rnd k pool s)) \<subseteq># mset pool"
proof (induction k arbitrary: pool s)
  case 0
  then show ?case by simp
next
  case (Suc k)
  obtain j s' where r: "randbelow rnd (length pool) s = (j, s')"
    by (cases "randbelow rnd (length pool) s")
  have "0 < length pool" using Suc.prems by (cases pool) simp_all
  from randbelow_less [OF this, of rnd s] r
  have j: "j < length pool" by simp
  let ?pool' = "butlast (pool[j := last pool])"
  obtain result s'' where l: "sample_loop rnd k ?pool' s' = (result, s'')"
    by (cases "sample_loop rnd k ?pool' s'")
  have "k \<le> length ?pool'" using Suc.prems by simp
  then have "mset result \<subseteq># mset ?pool'"
    using Suc.IH [of ?pool' s'] l by simp
  then have "mset result \<subseteq># mset pool - {#pool ! j#}"
    by (simp add: pool_step_mset [OF j])
  moreover have "pool ! j \<in># mset pool" using j by simp
  ultimately have "add_mset (pool ! j) (mset result) \<subseteq># mset pool"
    by (simp add: insert_subset_eq_iff)
  then show ?case using r l by simp
qed

lemma sample_loop_length: "length (fst (sample_loop rnd k pool s)) = k"
proof (induction k arbitrary: pool s)
  case 0
  then show ?case by simp
next
  case (Suc k)
  obtain j s' where r: "randbelow rnd (length pool) s = (j, s')"
    by (cases "randbelow rnd (length pool) s")
  obtain result s'' where
    l: "sample_loop rnd k (butlast (pool[j := last pool])) s' = (result, s'')"
    by (cases "sample_loop rnd k (butlast (pool[j := last pool])) s'")
  from Suc.IH [of "butlast (pool[j := last pool])" s'] l
  have "length result = k" by simp
  then show ?case using r l by simp
qed

section \<open>Cards and tokens\<close>

lemma rank_key: "CHAR_RANK_TO_INT_RANK ch = Some r \<Longrightarrow> ch \<in> set STR_RANKS"
  unfolding CHAR_RANK_TO_INT_RANK_def by (auto dest!: map_of_SomeD set_zip_leftD)

lemma suit_key: "CHAR_SUIT_TO_INT_SUIT ch = Some v \<Longrightarrow> ch \<in> set ''shdc''"
  unfolding CHAR_SUIT_TO_INT_SUIT_def by (auto split: if_splits)

lemma Card_new_two: "2 \<le> length tok \<Longrightarrow> Card_new tok = Card_new [tok ! 0, tok ! 1]"
  by (simp add: Card_new_def split: option.splits)

lemma Card_new_InrD:
  assumes "Card_new tok = Inr c"
  shows "2 \<le> length tok" and "\<exists>r. CHAR_RANK_TO_INT_RANK (tok ! 0) = Some r"
    and "\<exists>v. CHAR_SUIT_TO_INT_SUIT (tok ! 1) = Some v"
proof -
  show len: "2 \<le> length tok"
  proof (rule ccontr)
    assume "\<not> 2 \<le> length tok"
    then have "Card_new tok = Inl IndexError" by (simp add: Card_new_def)
    with assms show False by simp
  qed
  show r: "\<exists>r. CHAR_RANK_TO_INT_RANK (tok ! 0) = Some r"
  proof (cases "CHAR_RANK_TO_INT_RANK (tok ! 0)")
    case None
    with len have "Card_new tok = Inl (KeyError (CharKey (tok ! 0)))"
      by (simp add: Card_new_def)
    with assms show ?thesis by simp
  next
    case (Some r)
    then show ?thesis by simp
  qed
  show "\<exists>v. CHAR_SUIT_TO_INT_SUIT (tok ! 1) = Some v"
  proof (cases "CHAR_SUIT_TO_INT_SUIT (tok ! 1)")
    case None
    with len r have "Card_new tok = Inl (KeyError (CharKey (tok ! 1)))"
      by (auto simp: Card_new_def)
    with assms show ?thesis by simp
  next
    case (Some v)
    then show ?thesis by simp
  qed
qed

lemma Card_new_in_deck:
  assumes "Card_new tok = Inr c"
  shows "c \<in> set GetFullDeck"
proof -
  note d = Card_new_InrD [OF assms]
  have "card_of [tok ! 0, tok ! 1] = c"
    using assms Card_new_two [OF d(1)] by (simp add: card_of_def)
  moreover have "tok ! 0 \<in> set STR_RANKS" using d(2) rank_key by blast
  moreover have "tok ! 1 \<in> set ''shdc''" using d(3) suit_key by blast
  ultimately have "c \<in> (\<Union>rank \<in> set STR_RANKS. (\<lambda>suit. card_of [rank, suit]) ` set ''shdc'')"
    by blast
  then show ?thesis
    unfolding GetFullDeck_def set_concat set_map image_image .
qed

lemma all_tokens_roundtrip:
  "list_all (\<lambda>tok. case Card_new tok of Inl e \<Rightarrow> False | Inr c \<Rightarrow> int_to_str c = Inr tok)
     all_tokens"
  by code_simp

lemma deck_names:
  "list_all (\<lambda>c. case int_to_str c of Inl e \<Rightarrow> False | Inr name \<Rightarrow> True) GetFullDeck"
  by code_simp

lemma valid_token:
  assumes "length tok = 2" "tok ! 0 \<in> set valid_ranks" "tok ! 1 \<in> set valid_suits"
  shows "tok \<in> set all_tokens"
proof -
  from assms(1) have "tok = [tok ! 0, tok ! 1]"
    by (cases tok; cases "tl tok") auto
  then have "tok \<in> (\<Union>r \<in> set valid_ranks. (\<lambda>s. [r, s]) ` set valid_suits)"
    using assms(2,3) by blast
  then show ?thesis
    unfolding all_tokens_def set_concat set_map image_image .
qed

lemma valid_token_roundtrip:
  assumes "length tok = 2" "tok ! 0 \<in> set valid_ranks" "tok ! 1 \<in> set valid_suits"
  shows "\<exists>c. Card_new tok = Inr c \<and> int_to_str c = Inr tok"
proof -
  from valid_token [OF assms] all_tokens_roundtrip
  have "case Card_new tok of Inl e \<Rightarrow> False | Inr c \<Rightarrow> int_to_str c = Inr tok"
    by (simp add: list_all_iff)
  then show ?thesis by (cases "Card_new tok") simp_all
qed

lemma deck_card_name:
  assumes "c \<in> set GetFullDeck"
  shows "\<exists>name. int_to_str c = Inr name"
proof -
  from assms deck_names
  have "case int_to_str c of Inl e \<Rightarrow> False | Inr name \<Rightarrow> True"
    by (simp add: list_all_iff)
  then show ?thesis by (cases "int_to_str c") simp_all
qed

lemma cards_new_Inr:
  "cards_new toks = Inr cs \<Longrightarrow> set cs \<subseteq> set GetFullDeck \<and> length cs = length toks"
proof (induction toks arbitrary: cs)
  case Nil
  then show ?case by simp
next
  case (Cons tok toks)
  from Cons.prems obtain c cs' where
    c: "Card_new tok = Inr c" and cs': "cards_new toks = Inr cs'" and eq: "cs = c # cs'"
    by (auto split: sum.splits)
  from Cons.IH [OF cs'] Card_new_in_deck [OF c] eq show ?case by simp
qed

lemma cards_new_valid:
  "validate_cards toks \<Longrightarrow>
     \<exists>cs. cards_new toks = Inr cs \<and> map int_to_str cs = map Inr toks"
proof (induction toks)
  case Nil
  then show ?case by simp
next
  case (Cons tok toks)
  from Cons.prems have tok: "length tok = 2" "tok ! 0 \<in> set valid_ranks" "tok ! 1 \<in> set valid_suits"
    and rest: "validate_cards toks"
    by (auto split: if_splits)
  from valid_token_roundtrip [OF tok] obtain c where
    c: "Card_new tok = Inr c" "int_to_str c = Inr tok" by blast
  from Cons.IH [OF rest] obtain cs where
    cs: "cards_new toks = Inr cs" "map int_to_str cs = map Inr toks" by blast
  from c cs show ?case by simp
qed

lemma cards_new_append:
  "cards_new (xs @ ys) =
     (case cards_new xs of
        Inl e \<Rightarrow> Inl e
      | Inr cs \<Rightarrow> (case cards_new ys of Inl e \<Rightarrow> Inl e | Inr ds \<Rightarrow> Inr (cs @ ds)))"
  by (induction xs) (simp_all split: sum.splits)

lemma valid_input_convert:
  assumes "valid_input hole_cards board_cards"
  shows "\<exists>hole_ints board_ints.
           convert_cards hole_cards board_cards = Inr (hole_ints, board_ints) \<and>
           distinct (hole_ints @ board_ints) \<and>
           length hole_ints = 2 \<and> length board_ints = length board_cards"
proof -
  from assms have v: "validate_cards (hole_cards @ board_cards)"
    and d: "distinct (hole_cards @ board_cards)" and l: "length hole_cards = 2"
    by (simp_all add: valid_input_def)
  from cards_new_valid [OF v] obtain cs where
    cs: "cards_new (hole_cards @ board_cards) = Inr cs"
    and names: "map int_to_str cs = map Inr (hole_cards @ board_cards)" by blast
  from cs obtain hs bs where
    hs: "cards_new hole_cards = Inr hs" and bs: "cards_new board_cards = Inr bs"
    and eq: "cs = hs @ bs"
    by (auto simp: cards_new_append split: sum.splits)
  have "distinct (map (Inr :: string \<Rightarrow> error + string) (hole_cards @ board_cards))"
    using d by (subst distinct_map) (simp add: inj_on_def)
  then have "distinct (map int_to_str cs)"
    unfolding names .
  then have "distinct cs" by (simp add: distinct_map)
  moreover from cards_new_Inr [OF hs] l have "length hs = 2" by simp
  moreover from cards_new_Inr [OF bs] have "length bs = length board_cards" by simp
  ultimately show ?thesis
    using hs bs eq by (simp add: convert_cards_def)
qed

section \<open>Setting up the deck\<close>

lemma remove_used_ok:
  "distinct deck \<Longrightarrow> distinct cs \<Longrightarrow> set cs \<subseteq> set deck \<Longrightarrow>
     \<exists>d. remove_used cs deck = Inr d \<and> distinct d \<and> set d = set deck - set cs \<and>
         length d = length deck - length cs"
proof (induction cs arbitrary: deck)
  case Nil
  then show ?case by simp
next
  case (Cons c cs)
  from Cons.prems have c: "c \<in> set deck" and nc: "c \<notin> set cs" and dcs: "distinct cs"
    by simp_all
  have d1: "distinct (remove1 c deck)" using Cons.prems(1) by simp
  have s1: "set (remove1 c deck) = set deck - {c}" using Cons.prems(1) by simp
  have sub: "set cs \<subseteq> set (remove1 c deck)" using Cons.prems(3) nc s1 by auto
  from Cons.IH [OF d1 dcs sub] obtain d where
    d: "remove_used cs (remove1 c deck) = Inr d" "distinct d"
       "set d = set (remove1 c deck) - set cs"
       "length d = length (remove1 c deck) - length cs" by blast
  have "length (remove1 c deck) = length deck - 1" using c by (simp add: length_remove1)
  with d s1 c show ?case by auto
qed

lemma remove_used_append:
  "remove_used (xs @ ys) deck =
     (case remove_used xs deck of Inl e \<Rightarrow> Inl e | Inr d \<Rightarrow> remove_used ys d)"
proof (induction xs arbitrary: deck)
  case Nil
  then show ?case by simp
next
  case (Cons x xs)
  then show ?case by (simp split: sum.splits)
qed

lemma remove_used_repeated:
  assumes "distinct deck" and "set cs \<subseteq> set deck" and "\<not> distinct cs"
  shows "\<exists>pre c post. cs = pre @ c # post \<and> distinct pre \<and> c \<in> set pre \<and>
           remove_used cs deck =
             (case int_to_str c of Inl e \<Rightarrow> Inl e
              | Inr name \<Rightarrow> Inl (ValueError_not_available name))"
proof -
  from assms(3) obtain pre c post where
    split: "cs = pre @ c # post" and pre: "distinct pre" and c: "c \<in> set pre"
    unfolding not_distinct_conv_prefix by blast
  from assms(2) split have "set pre \<subseteq> set deck" by simp
  from remove_used_ok [OF assms(1) pre this] obtain d where
    d: "remove_used pre deck = Inr d" "set d = set deck - set pre" by blast
  from d(2) c have "c \<notin> set d" by simp
  then have "remove_used cs deck =
      (case int_to_str c of Inl e \<Rightarrow> Inl e | Inr name \<Rightarrow> Inl (ValueError_not_available name))"
    unfolding split remove_used_append d(1) by simp
  with split pre c show ?thesis by blast
qed

lemma Deck_new_cards:
  "mset (fst (Deck_new rnd s)) = mset GetFullDeck"
  by (simp add: Deck_new_def shuffle_mset)

lemma Deck_new_props:
  "distinct (fst (Deck_new rnd s))" "set (fst (Deck_new rnd s)) = set GetFullDeck"
  "length (fst (Deck_new rnd s)) = 52"
proof -
  note m = Deck_new_cards [of rnd s]
  from m show "distinct (fst (Deck_new rnd s))"
    using GetFullDeck_distinct mset_eq_imp_distinct_iff by blast
  from m show "set (fst (Deck_new rnd s)) = set GetFullDeck" by (rule mset_eq_setD)
  from m have "length (fst (Deck_new rnd s)) = length GetFullDeck" by (rule mset_eq_length)
  then show "length (fst (Deck_new rnd s)) = 52" by (simp add: GetFullDeck_length)
qed

lemma convert_cards_Inr:
  assumes "convert_cards hole_cards board_cards = Inr (hole_ints, board_ints)"
  shows "set (hole_ints @ board_ints) \<subseteq> set GetFullDeck"
    and "length hole_ints = length hole_cards" and "length board_ints = length board_cards"
proof -
  from assms have h: "cards_new hole_cards = Inr hole_ints"
    and b: "cards_new board_cards = Inr board_ints"
    by (auto simp: convert_cards_def split: sum.splits)
  from cards_new_Inr [OF h] cards_new_Inr [OF b]
  show "set (hole_ints @ board_ints) \<subseteq> set GetFullDeck"
    and "length hole_ints = length hole_cards" and "length board_ints = length board_cards"
    by simp_all
qed

lemma initial_state_props:
  assumes "convert_cards hole_cards board_cards = Inr (hole_ints, board_ints)"
    and "distinct (hole_ints @ board_ints)"
  shows "\<exists>st. initial_state rnd s0 hole_cards board_cards = Inr st \<and>
           hole_card_ints st = hole_ints \<and> board_card_ints st = board_ints \<and>
           wins st = 0 \<and> distinct (deck_cards st) \<and>
           length (deck_cards st) = 52 - length (hole_ints @ board_ints) \<and>
           set (deck_cards st) = set GetFullDeck - set (hole_ints @ board_ints)"
proof -
  obtain deck0 s1 where dk: "Deck_new rnd s0 = (deck0, s1)"
    by (cases "Deck_new rnd s0")
  from Deck_new_props [of rnd s0] dk
  have p: "distinct deck0" "set deck0 = set GetFullDeck" "length deck0 = 52" by simp_all
  from convert_cards_Inr(1) [OF assms(1)] p(2)
  have sub: "set (hole_ints @ board_ints) \<subseteq> set deck0" by simp
  from remove_used_ok [OF p(1) assms(2) sub] obtain d where
    d: "remove_used (hole_ints @ board_ints) deck0 = Inr d" "distinct d"
       "set d = set deck0 - set (hole_ints @ board_ints)"
       "length d = length deck0 - length (hole_ints @ board_ints)" by blast
  have "initial_state rnd s0 hole_cards board_cards =
          Inr \<lparr>deck_cards = d, hole_card_ints = hole_ints, board_card_ints = board_ints,
               wins = 0, rng_state = s1\<rparr>"
    by (simp add: initial_state_def dk assms(1) d(1))
  with d(2,3,4) p(2,3) show ?thesis by auto
qed

text \<open>
  Claim C6: when the hero's and the board's tokens parse and name distinct cards, the
  setup succeeds, and the deck it leaves holds none of these cards and has
  \<open>52 - |S|\<close> cards, \<open>S\<close> being the cards removed.
\<close>

theorem initial_state_removes:
  assumes "convert_cards hole_cards board_cards = Inr (hole_ints, board_ints)"
    and "distinct (hole_ints @ board_ints)"
  shows "\<exists>st. initial_state rnd s0 hole_cards board_cards = Inr st \<and>
           hole_card_ints st = hole_ints \<and> board_card_ints st = board_ints \<and>
           set (deck_cards st) \<inter> set (hole_ints @ board_ints) = {} \<and>
           length (deck_cards st) = 52 - length (hole_ints @ board_ints) \<and>
           set (deck_cards st) = set GetFullDeck - set (hole_ints @ board_ints)"
proof -
  from initial_state_props [OF assms, of rnd s0] obtain st where
    st: "initial_state rnd s0 hole_cards board_cards = Inr st"
        "hole_card_ints st = hole_ints" "board_card_ints st = board_ints"
        "length (deck_cards st) = 52 - length (hole_ints @ board_ints)"
        "set (deck_cards st) = set GetFullDeck - set (hole_ints @ board_ints)" by blast
  from st(5) have "set (deck_cards st) \<inter> set (hole_ints @ board_ints) = {}" by blast
  with st show ?thesis by blast
qed

text \<open>
  Claim C5: when the tokens parse but a card occurs twice among the hero's and the board's
  cards, the removal loop fails at the first repeated card \<open>c\<close> (everything before it is
  distinct and contains \<open>c\<close>) with the \<open>ValueError\<close> that names \<open>c\<close>. The failure is the
  result of the setup, so whatever the number of simulations, the player count, the rank
  function and the random source are, the call returns it and no trial is run.
\<close>

theorem duplicate_card_rejected:
  assumes "convert_cards hole_cards board_cards = Inr (hole_ints, board_ints)"
    and "\<not> distinct (hole_ints @ board_ints)"
  shows "\<exists>pre c post name.
           hole_ints @ board_ints = pre @ c # post \<and> distinct pre \<and> c \<in> set pre \<and>
           int_to_str c = Inr name \<and>
           initial_state rnd s0 hole_cards board_cards = Inl (ValueError_not_available name) \<and>
           calculate_win_probability rank_of rnd s0 hole_cards board_cards num_players
             num_simulations = Some (Inl (ValueError_not_available name))"
proof -
  obtain deck0 s1 where dk: "Deck_new rnd s0 = (deck0, s1)"
    by (cases "Deck_new rnd s0")
  from Deck_new_props [of rnd s0] dk
  have p: "distinct deck0" "set deck0 = set GetFullDeck" by simp_all
  from convert_cards_Inr(1) [OF assms(1)] p(2)
  have sub: "set (hole_ints @ board_ints) \<subseteq> set deck0" by simp
  from remove_used_repeated [OF p(1) sub assms(2)] obtain pre c post where
    split: "hole_ints @ board_ints = pre @ c # post" and pre: "distinct pre" "c \<in> set pre"
    and r: "remove_used (hole_ints @ board_ints) deck0 =
             (case int_to_str c of Inl e \<Rightarrow> Inl e
              | Inr name \<Rightarrow> Inl (ValueError_not_available name))" by blast
  have "c \<in> set GetFullDeck" using sub split p(2) by auto
  from deck_card_name [OF this] obtain name where name: "int_to_str c = Inr name" by blast
  have i: "initial_state rnd s0 hole_cards board_cards = Inl (ValueError_not_available name)"
    by (simp add: initial_state_def dk assms(1) r name)
  then have "calculate_win_probability rank_of rnd s0 hole_cards board_cards num_players
      num_simulations = Some (Inl (ValueError_not_available name))"
    by (simp add: calculate_win_probability_def)
  with split pre name i show ?thesis by blast
qed

theorem initial_state_removes_witness:
  "\<exists>st. initial_state counter_rng 0 [''As'', ''Kd''] [''Qs'', ''Jh'', ''9d''] = Inr st \<and>
     hole_card_ints st = [268442665, 134236965] \<and>
     board_card_ints st = [67115551, 33564957, 8406803] \<and>
     set (deck_cards st) \<inter> set [268442665, 134236965, 67115551, 33564957, 8406803] = {} \<and>
     length (deck_cards st) = 47"
proof -
  have c: "convert_cards [''As'', ''Kd''] [''Qs'', ''Jh'', ''9d'']
             = Inr ([268442665, 134236965], [67115551, 33564957, 8406803])"
    by code_simp
  have d: "distinct ([268442665, 134236965] @ [67115551, 33564957, 8406803 :: int])"
    by simp
  from initial_state_removes [OF c d, of counter_rng 0] show ?thesis
    by auto
qed

theorem duplicate_card_rejected_witness:
  "\<exists>pre c post name.
     [268442665, 134236965] @ [268442665] = pre @ c # post \<and> distinct pre \<and> c \<in> set pre \<and>
     int_to_str c = Inr name \<and>
     initial_state counter_rng 0 [''As'', ''Kd''] [''As''] = Inl (ValueError_not_available name) \<and>
     calculate_win_probability rank_sum counter_rng 0 [''As'', ''Kd''] [''As''] 2 10000
       = Some (Inl (ValueError_not_available name))"
proof -
  have c: "convert_cards [''As'', ''Kd''] [''As''] = Inr ([268442665, 134236965], [268442665])"
    by code_simp
  have d: "\<not> distinct ([268442665, 134236965] @ [268442665 :: int])"
    by simp
  from duplicate_card_rejected [OF c d, of counter_rng 0 rank_sum 2 10000] show ?thesis .
qed

section \<open>Counting a trial\<close>

lemma py_min_Inr:
  "py_min xs = Inr m \<Longrightarrow> xs \<noteq> [] \<and> m = Min (set xs)"
proof (cases xs)
  case Nil
  assume "py_min xs = Inr m"
  with Nil show ?thesis by (simp add: py_min_def)
next
  case (Cons x ys)
  assume "py_min xs = Inr m"
  with Cons have "m = fold min ys x" by (simp add: py_min_def)
  also have "\<dots> = Min (set (x # ys))" by (rule Min.set_eq_fold [symmetric])
  finally show ?thesis using Cons by simp
qed

lemma py_min_empty: "py_min [] = Inl ValueError_min"
  by (simp add: py_min_def)

lemma py_min_nonempty:
  assumes "xs \<noteq> []"
  shows "py_min xs = Inr (Min (set xs))"
proof -
  from assms obtain x ys where xs: "xs = x # ys" by (cases xs) auto
  have "fold min ys x = Min (set (x # ys))" by (rule Min.set_eq_fold [symmetric])
  then show ?thesis unfolding xs py_min_def by simp
qed

text \<open>
  Claim C2 says that a trial in which the hero's rank equals the best opponent rank is not
  counted as a win. The comparison of lines 76 to 78 is \<open>\<le>\<close>: with the hero at rank 10 and
  the opponents at ranks 10 and 20 the counter goes from 0 to 1.
\<close>

theorem count_win_tie_counterexample: "count_win 0 10 [10, 20] = Inr 1"
  by (simp add: count_win_def py_min_def)

lemma count_win_le:
  "opponent_scores \<noteq> [] \<Longrightarrow>
     count_win w hero_score opponent_scores =
       Inr (if \<forall>s \<in> set opponent_scores. hero_score \<le> s then w + 1 else w)"
  by (simp add: count_win_def py_min_nonempty)

section \<open>Sampling from a large population\<close>

lemma redraw_fresh: "j \<notin> selected \<Longrightarrow> redraw rnd n selected j s = Some (j, s)"
  by (subst redraw.simps) simp

lemma redraw_taken:
  "j \<in> selected \<Longrightarrow>
     redraw rnd n selected j s =
       redraw rnd n selected (fst (randbelow rnd n s)) (snd (randbelow rnd n s))"
  by (subst redraw.simps) (simp add: split_beta)

lemma select_loop_length:
  "select_loop rnd k population selected s = Some (result, s') \<Longrightarrow> length result = k"
proof (induction k arbitrary: selected s result s')
  case 0
  then show ?case by simp
next
  case (Suc k)
  obtain j0 s0 where a: "randbelow rnd (length population) s = (j0, s0)"
    by (cases "randbelow rnd (length population) s")
  from Suc.prems a obtain j s1 where
    b: "redraw rnd (length population) selected j0 s0 = Some (j, s1)"
    by (cases "redraw rnd (length population) selected j0 s0") auto
  from Suc.prems a b obtain rest s2 where
    c: "select_loop rnd k population (insert j selected) s1 = Some (rest, s2)"
    by (cases "select_loop rnd k population (insert j selected) s1") auto
  from Suc.prems a b c have "result = population ! j # rest" by simp
  with Suc.IH [OF c] show ?case by simp
qed

lemma sample_length:
  assumes "sample rnd population k s = Some (Inr (result, s'))"
  shows "int (length result) = k"
proof -
  from assms have k: "0 \<le> k" by (simp add: sample_def split: if_splits)
  show ?thesis
  proof (cases "length population \<le> setsize (nat k)")
    case True
    with assms have "sample_loop rnd (nat k) population s = (result, s')"
      by (simp add: sample_def split: if_splits)
    with sample_loop_length [of rnd "nat k" population s] k show ?thesis by simp
  next
    case False
    with assms have "select_loop rnd (nat k) population {} s = Some (result, s')"
      by (simp add: sample_def split: if_splits option.splits)
    from select_loop_length [OF this] k show ?thesis by simp
  qed
qed

lemma sample_Some:
  assumes "0 \<le> k" and "k \<le> int (length population)"
    and "sample rnd population k s = Some r"
  shows "\<exists>result s'. r = Inr (result, s') \<and> int (length result) = k"
proof -
  from assms obtain result s' where r: "r = Inr (result, s')"
    by (cases "sample_loop rnd (nat k) population s")
       (auto simp: sample_def split: if_splits option.splits)
  with assms(3) sample_length [of rnd population k s result s'] show ?thesis by simp
qed

lemma sample_nothing: "sample rnd population 0 s = Some (Inr ([], s))"
  by (simp add: sample_def)

section \<open>With a fair generator every sample returns\<close>

lemma rng_stream_0: "rng_stream rnd s 0 = fst (rnd s)"
  by (simp add: rng_stream_def)

lemma rng_stream_Suc: "rng_stream rnd s (Suc m) = rng_stream rnd (snd (rnd s)) m"
proof -
  have "((\<lambda>t. snd (rnd t)) ^^ Suc m) s = ((\<lambda>t. snd (rnd t)) ^^ m) (snd (rnd s))"
    by (simp only: funpow_Suc_right o_apply)
  then show ?thesis by (simp only: rng_stream_def)
qed

lemma redraw_returns:
  "rng_stream rnd s m mod n = j0 \<Longrightarrow> j0 \<notin> selected \<Longrightarrow>
     \<exists>r. redraw rnd n selected j s = Some r"
proof (induction m arbitrary: j s)
  case 0
  show ?case
  proof (cases "j \<in> selected")
    case False
    then show ?thesis by (simp add: redraw_fresh)
  next
    case True
    from 0 have "fst (randbelow rnd n s) \<notin> selected"
      by (simp add: rng_stream_0 randbelow_def split_beta)
    with True show ?thesis by (simp add: redraw_taken redraw_fresh)
  qed
next
  case (Suc m)
  show ?case
  proof (cases "j \<in> selected")
    case False
    then show ?thesis by (simp add: redraw_fresh)
  next
    case True
    from Suc.prems(1) have "rng_stream rnd (snd (randbelow rnd n s)) m mod n = j0"
      by (simp add: rng_stream_Suc randbelow_def split_beta)
    from Suc.IH [OF this Suc.prems(2)] True show ?thesis by (simp add: redraw_taken)
  qed
qed

lemma free_position:
  assumes "finite selected" and "card selected < n"
  shows "\<exists>j0 < n. j0 \<notin> selected"
proof (rule ccontr)
  assume "\<not> (\<exists>j0 < n. j0 \<notin> selected)"
  then have "{0..<n} \<subseteq> selected" by auto
  from card_mono [OF assms(1) this] assms(2) show False by simp
qed

lemma select_loop_returns:
  assumes "fair rnd"
  shows "finite selected \<Longrightarrow> card selected + k \<le> length population \<Longrightarrow>
           \<exists>r. select_loop rnd k population selected s = Some r"
proof (induction k arbitrary: selected s)
  case 0
  then show ?case by simp
next
  case (Suc k)
  let ?n = "length population"
  obtain j0 s0 where a: "randbelow rnd ?n s = (j0, s0)"
    by (cases "randbelow rnd ?n s")
  from Suc.prems have "card selected < ?n" by simp
  from free_position [OF Suc.prems(1) this] obtain p where p: "p < ?n" "p \<notin> selected"
    by blast
  from assms p(1) obtain m where "rng_stream rnd s0 m mod ?n = p"
    unfolding fair_def by blast
  from redraw_returns [OF this p(2), of j0] obtain j s1 where
    b: "redraw rnd ?n selected j0 s0 = Some (j, s1)"
    by auto
  have "finite (insert j selected)" using Suc.prems(1) by simp
  moreover have "card (insert j selected) + k \<le> ?n"
    using Suc.prems card_insert_le_m1 [of "Suc (card selected)" selected j]
    by (simp add: card_insert_if)
  ultimately obtain r where
    c: "select_loop rnd k population (insert j selected) s1 = Some r"
    using Suc.IH by blast
  obtain rest s2 where r: "r = (rest, s2)" by (cases r)
  from a b c r show ?case by simp
qed

lemma sample_returns:
  assumes "fair rnd"
  shows "\<exists>r. sample rnd population k s = Some r"
proof (cases "0 \<le> k \<and> k \<le> int (length population) \<and> \<not> length population \<le> setsize (nat k)")
  case True
  then have "nat k \<le> length population" by linarith
  then have "card ({} :: nat set) + nat k \<le> length population" by simp
  from select_loop_returns [OF assms _ this, of s] obtain r where
    "select_loop rnd (nat k) population {} s = Some r"
    by auto
  with True show ?thesis by (simp add: sample_def)
next
  case False
  then show ?thesis by (auto simp: sample_def)
qed

section \<open>What a deal returns\<close>

lemma filter_not_in_length:
  assumes "distinct xs"
  shows "length xs - length ys \<le> length (filter (\<lambda>c. c \<notin> set ys) xs)"
proof -
  have "distinct (filter (\<lambda>c. c \<in> set ys) xs)" using assms by simp
  then have "length (filter (\<lambda>c. c \<in> set ys) xs) = card (set (filter (\<lambda>c. c \<in> set ys) xs))"
    by (rule distinct_card [symmetric])
  also have "\<dots> \<le> card (set ys)" by (rule card_mono) auto
  also have "\<dots> \<le> length ys" by (rule card_length)
  finally have "length (filter (\<lambda>c. c \<in> set ys) xs) \<le> length ys" .
  moreover have "length xs =
      length (filter (\<lambda>c. c \<in> set ys) xs) + length (filter (\<lambda>c. \<not> c \<in> set ys) xs)"
    by (rule sum_length_filter_compl [symmetric])
  ultimately show ?thesis by simp
qed

lemma concat_length_two:
  "\<forall>h \<in> set hands. length h = 2 \<Longrightarrow> length (concat hands) = 2 * length hands"
  by (induction hands) simp_all

lemma deal_opponents_Some:
  assumes "2 \<le> length cards"
  shows "deal_opponents rnd cards n s = Some r \<Longrightarrow>
         \<exists>hands s'. r = Inr (hands, s') \<and> length hands = n \<and> (\<forall>h \<in> set hands. length h = 2)"
proof (induction n arbitrary: s r)
  case 0
  then show ?case by auto
next
  case (Suc n)
  from Suc.prems obtain r1 where a: "sample rnd cards 2 s = Some r1"
    by (cases "sample rnd cards 2 s") simp_all
  from assms have "(0::int) \<le> 2" "2 \<le> int (length cards)" by simp_all
  from sample_Some [OF this a] obtain hand s1 where
    r1: "r1 = Inr (hand, s1)" and h: "length hand = 2" by auto
  from Suc.prems a r1 obtain r2 where b: "deal_opponents rnd cards n s1 = Some r2"
    by (cases "deal_opponents rnd cards n s1") simp_all
  from Suc.IH [OF b] obtain hands s2 where
    r2: "r2 = Inr (hands, s2)" and hs: "length hands = n" "\<forall>h \<in> set hands. length h = 2"
    by blast
  from Suc.prems a r1 b r2 have "r = Inr (hand # hands, s2)" by simp
  with h hs show ?case by simp
qed

lemma deal_Some:
  assumes "distinct (deck_cards st)"
    and "length (deck_cards st) = 50 - length board_cards"
    and "length board_cards \<le> 5"
    and "num_players \<le> 23"
    and "deal rnd board_cards num_players st = Some r"
  shows "\<exists>hands rb s'. r = Inr (hands, rb, board_card_ints st @ rb, s') \<and>
           length hands = nat (num_players - 1) \<and>
           (\<forall>h \<in> set hands. length h = 2) \<and>
           length rb = 5 - length board_cards"
proof -
  let ?cards = "deck_cards st"
  from assms(5) obtain r1 where
    a: "deal_opponents rnd ?cards (nat (num_players - 1)) (rng_state st) = Some r1"
    by (cases "deal_opponents rnd ?cards (nat (num_players - 1)) (rng_state st)")
       (simp_all add: deal_def)
  from assms(2,3) have "2 \<le> length ?cards" by simp
  from deal_opponents_Some [OF this a] obtain hands s1 where
    r1: "r1 = Inr (hands, s1)" and lh: "length hands = nat (num_players - 1)"
    and two: "\<forall>h \<in> set hands. length h = 2"
    by blast
  from assms(5) a r1 obtain r2 where
    b: "deal_board rnd ?cards board_cards hands s1 = Some r2"
    by (cases "deal_board rnd ?cards board_cards hands s1") (simp_all add: deal_def)
  from concat_length_two [OF two] lh assms(4)
  have "length (concat hands) \<le> 44" by simp
  with filter_not_in_length [OF assms(1), of "concat hands"] assms(2,3)
  have "5 - length board_cards \<le> length (filter (\<lambda>c. c \<notin> set (concat hands)) ?cards)"
    by simp
  with assms(3)
  have k: "(0::int) \<le> 5 - int (length board_cards)"
    "5 - int (length board_cards) \<le> int (length (filter (\<lambda>c. c \<notin> set (concat hands)) ?cards))"
    by simp_all
  from sample_Some [OF k b [unfolded deal_board_def]] obtain rb s2 where
    r2: "r2 = Inr (rb, s2)" and "int (length rb) = 5 - int (length board_cards)"
    by blast
  with assms(3) have lr: "length rb = 5 - length board_cards" by simp
  from assms(5) a r1 b r2 have "r = Inr (hands, rb, board_card_ints st @ rb, s2)"
    by (simp add: deal_def)
  with lh two lr show ?thesis by blast
qed

lemma deal_hands:
  assumes "deal rnd board_cards num_players st = Some (Inr (hands, rb, fb, s'))"
  shows "\<exists>s1. deal_opponents rnd (deck_cards st) (nat (num_players - 1)) (rng_state st) =
                 Some (Inr (hands, s1)) \<and>
              deal_board rnd (deck_cards st) board_cards hands s1 = Some (Inr (rb, s')) \<and>
              fb = board_card_ints st @ rb"
  using assms by (auto simp: deal_def split: option.splits sum.splits)

section \<open>With a fair generator every deal returns\<close>

lemma deal_opponents_returns:
  assumes "fair rnd"
  shows "\<exists>r. deal_opponents rnd cards n s = Some r"
proof (induction n arbitrary: s)
  case 0
  then show ?case by simp
next
  case (Suc n)
  from sample_returns [OF assms, of cards 2 s] obtain r1 where
    a: "sample rnd cards 2 s = Some r1" by blast
  show ?case
  proof (cases r1)
    case (Inl e)
    with a show ?thesis by simp
  next
    case (Inr p)
    obtain hand s1 where p: "p = (hand, s1)" by (cases p)
    from Suc.IH [of s1] obtain r2 where b: "deal_opponents rnd cards n s1 = Some r2" by blast
    show ?thesis
    proof (cases r2)
      case (Inl e)
      with a Inr p b show ?thesis by simp
    next
      case r2: (Inr q)
      obtain hands s2 where "q = (hands, s2)" by (cases q)
      with a Inr p b r2 show ?thesis by simp
    qed
  qed
qed

lemma deal_returns:
  assumes "fair rnd"
  shows "\<exists>r. deal rnd board_cards num_players st = Some r"
proof -
  from deal_opponents_returns [OF assms, of "deck_cards st" "nat (num_players - 1)" "rng_state st"]
  obtain r1 where
    a: "deal_opponents rnd (deck_cards st) (nat (num_players - 1)) (rng_state st) = Some r1"
    by blast
  show ?thesis
  proof (cases r1)
    case (Inl e)
    with a show ?thesis by (simp add: deal_def)
  next
    case (Inr p)
    obtain hands s1 where p: "p = (hands, s1)" by (cases p)
    from sample_returns [OF assms] obtain r2 where
      b: "deal_board rnd (deck_cards st) board_cards hands s1 = Some r2"
      unfolding deal_board_def by blast
    show ?thesis
    proof (cases r2)
      case (Inl e)
      with a Inr p b show ?thesis by (simp add: deal_def)
    next
      case r2: (Inr q)
      obtain rb s2 where "q = (rb, s2)" by (cases q)
      with a Inr p b r2 show ?thesis by (simp add: deal_def)
    qed
  qed
qed

section \<open>One trial\<close>

lemma evaluate_Inr:
  "evaluate rank_of cards board = Inr score \<Longrightarrow> score = rank_of (cards @ board)"
  by (simp add: evaluate_def Let_def split: if_splits)

lemma evaluate_all_Inr:
  "evaluate_all rank_of final_board hands = Inr scores \<Longrightarrow>
     scores = map (\<lambda>opp_hand. rank_of (final_board @ opp_hand)) hands"
proof (induction hands arbitrary: scores)
  case Nil
  then show ?case by simp
next
  case (Cons h hands)
  from Cons.prems obtain score where
    s: "evaluate rank_of final_board h = Inr score"
    by (cases "evaluate rank_of final_board h") simp_all
  from Cons.prems s obtain rest where
    r: "evaluate_all rank_of final_board hands = Inr rest"
    by (cases "evaluate_all rank_of final_board hands") simp_all
  from Cons.prems s r have eq: "scores = score # rest" by simp
  from evaluate_Inr [OF s] Cons.IH [OF r] eq show ?case by simp
qed

lemma evaluate_seven:
  "length cards + length board = 7 \<Longrightarrow>
     evaluate rank_of cards board = Inr (rank_of (cards @ board))"
  by (simp add: evaluate_def)

lemma evaluate_all_returns:
  "length final_board = 5 \<Longrightarrow> \<forall>h \<in> set hands. length h = 2 \<Longrightarrow>
     evaluate_all rank_of final_board hands =
       Inr (map (\<lambda>opp_hand. rank_of (final_board @ opp_hand)) hands)"
  by (induction hands) (simp_all add: evaluate_seven)

lemma trial_deal:
  "deal rnd board_cards num_players st = Some (Inr (hands, rb, fb, s')) \<Longrightarrow>
     trial rank_of rnd board_cards num_players st =
       (case evaluate rank_of fb (hole_card_ints st) of
          Inl e \<Rightarrow> Some (Inl e)
        | Inr hero_score \<Rightarrow>
           (case evaluate_all rank_of fb hands of
              Inl e \<Rightarrow> Some (Inl e)
            | Inr opponent_scores \<Rightarrow>
               (case count_win (wins st) hero_score opponent_scores of
                  Inl e \<Rightarrow> Some (Inl e)
                | Inr w \<Rightarrow> Some (Inr (st\<lparr>wins := w, rng_state := s'\<rparr>)))))"
  by (simp add: trial_def)

lemma trial_Inr:
  assumes "trial rank_of rnd board_cards num_players st = Some (Inr st')"
  shows "\<exists>hands rb fb s' w.
           deal rnd board_cards num_players st = Some (Inr (hands, rb, fb, s')) \<and>
           hands \<noteq> [] \<and>
           count_win (wins st) (rank_of (fb @ hole_card_ints st))
             (map (\<lambda>opp_hand. rank_of (fb @ opp_hand)) hands) = Inr w \<and>
           st' = st\<lparr>wins := w, rng_state := s'\<rparr>"
proof -
  from assms obtain r where r: "deal rnd board_cards num_players st = Some r"
    by (cases "deal rnd board_cards num_players st") (simp_all add: trial_def)
  from assms r obtain q where q: "r = Inr q"
    by (cases r) (simp_all add: trial_def)
  obtain hands rb fb s' where "q = (hands, rb, fb, s')" by (cases q)
  with r q have d: "deal rnd board_cards num_players st = Some (Inr (hands, rb, fb, s'))"
    by simp
  note t = trial_deal [OF d, of rank_of]
  from assms t obtain hero where
    h: "evaluate rank_of fb (hole_card_ints st) = Inr hero"
    by (cases "evaluate rank_of fb (hole_card_ints st)") simp_all
  from assms t h obtain scores where
    a: "evaluate_all rank_of fb hands = Inr scores"
    by (cases "evaluate_all rank_of fb hands") simp_all
  from assms t h a obtain w where
    w: "count_win (wins st) hero scores = Inr w"
    by (cases "count_win (wins st) hero scores") simp_all
  from assms t h a w have st': "st' = st\<lparr>wins := w, rng_state := s'\<rparr>"
    by simp
  note hero = evaluate_Inr [OF h]
  note scores = evaluate_all_Inr [OF a]
  have "scores \<noteq> []"
  proof
    assume "scores = []"
    with w show False by (simp add: count_win_def py_min_empty)
  qed
  with scores have "hands \<noteq> []" by auto
  with d w st' hero scores show ?thesis by blast
qed

lemma prepared_update [simp]:
  "prepared board_cards (st\<lparr>wins := w, rng_state := s'\<rparr>) = prepared board_cards st"
  by (simp add: prepared_def)

lemma trial_Some:
  assumes p: "prepared board_cards st"
    and n: "2 \<le> num_players" "num_players \<le> 23"
    and t: "trial rank_of rnd board_cards num_players st = Some r"
  shows "\<exists>w s'. r = Inr (st\<lparr>wins := w, rng_state := s'\<rparr>) \<and> wins st \<le> w \<and> w \<le> wins st + 1"
proof -
  from p have d: "distinct (deck_cards st)"
    and l: "length (deck_cards st) = 50 - length board_cards"
    and b: "length board_cards \<le> 5"
    and bi: "length (board_card_ints st) = length board_cards"
    and hi: "length (hole_card_ints st) = 2"
    by (simp_all add: prepared_def)
  from t obtain r1 where r1: "deal rnd board_cards num_players st = Some r1"
    by (cases "deal rnd board_cards num_players st") (simp_all add: trial_def)
  from deal_Some [OF d l b n(2) r1] obtain hands rb s' where
    r1': "r1 = Inr (hands, rb, board_card_ints st @ rb, s')"
    and lh: "length hands = nat (num_players - 1)"
    and h2: "\<forall>h \<in> set hands. length h = 2"
    and lr: "length rb = 5 - length board_cards"
    by blast
  from r1 r1' have dl: "deal rnd board_cards num_players st =
      Some (Inr (hands, rb, board_card_ints st @ rb, s'))" by simp
  let ?fb = "board_card_ints st @ rb"
  let ?scores = "map (\<lambda>opp_hand. rank_of (?fb @ opp_hand)) hands"
  let ?hero = "rank_of (?fb @ hole_card_ints st)"
  from bi lr b have fb5: "length ?fb = 5" by simp
  from fb5 hi have e1: "evaluate rank_of ?fb (hole_card_ints st) = Inr ?hero"
    by (intro evaluate_seven) simp
  from fb5 h2 have e2: "evaluate_all rank_of ?fb hands = Inr ?scores"
    by (rule evaluate_all_returns)
  from lh n(1) have "hands \<noteq> []" by auto
  then have "?scores \<noteq> []" by simp
  from count_win_le [OF this, of "wins st" ?hero]
  obtain w where c: "count_win (wins st) ?hero ?scores = Inr w"
    and w: "wins st \<le> w" "w \<le> wins st + 1"
    by (cases "\<forall>s \<in> set ?scores. ?hero \<le> s") simp_all
  have "trial rank_of rnd board_cards num_players st =
          Some (Inr (st\<lparr>wins := w, rng_state := s'\<rparr>))"
    using e1 e2 c by (simp add: trial_deal [OF dl])
  with t w show ?thesis by auto
qed

lemma trial_returns:
  assumes "fair rnd"
  shows "\<exists>r. trial rank_of rnd board_cards num_players st = Some r"
proof -
  from deal_returns [OF assms, of board_cards num_players st] obtain r1 where
    a: "deal rnd board_cards num_players st = Some r1" by blast
  show ?thesis
  proof (cases r1)
    case (Inl e)
    with a show ?thesis by (simp add: trial_def)
  next
    case (Inr q)
    obtain hands rb fb s' where "q = (hands, rb, fb, s')" by (cases q)
    with a Inr have "deal rnd board_cards num_players st = Some (Inr (hands, rb, fb, s'))"
      by simp
    from trial_deal [OF this, of rank_of] show ?thesis
      by (simp split: sum.splits)
  qed
qed

section \<open>The whole loop\<close>

lemma run_trials_Some:
  assumes n: "2 \<le> num_players" "num_players \<le> 23"
  shows "prepared board_cards st \<Longrightarrow>
         run_trials rank_of rnd board_cards num_players n st = Some r \<Longrightarrow>
         \<exists>w s'. r = Inr (st\<lparr>wins := w, rng_state := s'\<rparr>) \<and> wins st \<le> w \<and> w \<le> wins st + n"
proof (induction n arbitrary: st)
  case 0
  have "st = st\<lparr>wins := wins st, rng_state := rng_state st\<rparr>" by simp
  with 0 have "r = Inr (st\<lparr>wins := wins st, rng_state := rng_state st\<rparr>)" by simp
  then show ?case by (intro exI [of _ "wins st"] exI [of _ "rng_state st"]) simp
next
  case (Suc n)
  from Suc.prems(2) obtain r1 where
    t: "trial rank_of rnd board_cards num_players st = Some r1"
    by (cases "trial rank_of rnd board_cards num_players st") simp_all
  from trial_Some [OF Suc.prems(1) n t] obtain w1 s1 where
    r1: "r1 = Inr (st\<lparr>wins := w1, rng_state := s1\<rparr>)"
    and w1: "wins st \<le> w1" "w1 \<le> wins st + 1"
    by blast
  let ?st1 = "st\<lparr>wins := w1, rng_state := s1\<rparr>"
  from Suc.prems(1) have p1: "prepared board_cards ?st1" by simp
  from Suc.prems(2) t r1 have
    "run_trials rank_of rnd board_cards num_players n ?st1 = Some r" by simp
  from Suc.IH [OF p1 this] obtain w s' where
    r: "r = Inr (?st1\<lparr>wins := w, rng_state := s'\<rparr>)"
    and w: "wins ?st1 \<le> w" "w \<le> wins ?st1 + n"
    by blast
  from r have "r = Inr (st\<lparr>wins := w, rng_state := s'\<rparr>)" by simp
  moreover from w1 w have "wins st \<le> w" "w \<le> wins st + Suc n" by simp_all
  ultimately show ?case by blast
qed

lemma run_trials_returns:
  assumes "fair rnd"
  shows "\<exists>r. run_trials rank_of rnd board_cards num_players n st = Some r"
proof (induction n arbitrary: st)
  case 0
  then show ?case by simp
next
  case (Suc n)
  from trial_returns [OF assms, of rank_of board_cards num_players st] obtain r1 where
    t: "trial rank_of rnd board_cards num_players st = Some r1" by blast
  show ?case
  proof (cases r1)
    case (Inl e)
    with t show ?thesis by simp
  next
    case (Inr st1)
    with t Suc.IH [of st1] show ?thesis by simp
  qed
qed

lemma initial_state_prepared:
  assumes "valid_input hole_cards board_cards"
  shows "\<exists>st. initial_state rnd s0 hole_cards board_cards = Inr st \<and>
           prepared board_cards st \<and> wins st = 0"
proof -
  from valid_input_convert [OF assms] obtain hole_ints board_ints where
    c: "convert_cards hole_cards board_cards = Inr (hole_ints, board_ints)"
    and d: "distinct (hole_ints @ board_ints)"
    and lh: "length hole_ints = 2"
    and lb: "length board_ints = length board_cards"
    by blast
  from initial_state_props [OF c d, of rnd s0] obtain st where
    i: "initial_state rnd s0 hole_cards board_cards = Inr st"
    and h: "hole_card_ints st = hole_ints" "board_card_ints st = board_ints"
    and w: "wins st = 0"
    and dd: "distinct (deck_cards st)"
    and l: "length (deck_cards st) = 52 - length (hole_ints @ board_ints)"
    by blast
  from assms have "length board_cards \<le> 5" by (simp add: valid_input_def)
  with h dd l lh lb have "prepared board_cards st" by (simp add: prepared_def)
  with i w show ?thesis by blast
qed

lemma cwp_Some:
  assumes v: "valid_input hole_cards board_cards"
    and n: "2 \<le> num_players" "num_players \<le> 23"
    and m: "0 < num_simulations"
    and c: "calculate_win_probability rank_of rnd s0 hole_cards board_cards num_players
              num_simulations = Some r"
  shows "\<exists>st0 w s'.
           initial_state rnd s0 hole_cards board_cards = Inr st0 \<and>
           prepared board_cards st0 \<and>
           run_trials rank_of rnd board_cards num_players (nat num_simulations) st0 =
             Some (Inr (st0\<lparr>wins := w, rng_state := s'\<rparr>)) \<and>
           w \<le> nat num_simulations \<and>
           r = Inr (real w / real_of_int num_simulations * 100)"
proof -
  from initial_state_prepared [OF v, of rnd s0] obtain st0 where
    i: "initial_state rnd s0 hole_cards board_cards = Inr st0"
    and p: "prepared board_cards st0" and w0: "wins st0 = 0"
    by blast
  from c i obtain r1 where
    r1: "run_trials rank_of rnd board_cards num_players (nat num_simulations) st0 = Some r1"
    by (cases "run_trials rank_of rnd board_cards num_players (nat num_simulations) st0")
       (simp_all add: calculate_win_probability_def)
  from run_trials_Some [OF n p r1] w0 obtain w s' where
    r1': "r1 = Inr (st0\<lparr>wins := w, rng_state := s'\<rparr>)"
    and w: "w \<le> nat num_simulations"
    by auto
  from c i r1 r1' m have "r = Inr (real w / real_of_int num_simulations * 100)"
    by (simp add: calculate_win_probability_def)
  with i p r1 r1' w show ?thesis by blast
qed

lemma cwp_returns:
  assumes "fair rnd"
  shows "\<exists>r. calculate_win_probability rank_of rnd s0 hole_cards board_cards num_players
                num_simulations = Some r"
proof (cases "initial_state rnd s0 hole_cards board_cards")
  case (Inl e)
  then show ?thesis by (simp add: calculate_win_probability_def)
next
  case (Inr st0)
  from run_trials_returns [OF assms, of rank_of board_cards num_players "nat num_simulations" st0]
  obtain r1 where
    "run_trials rank_of rnd board_cards num_players (nat num_simulations) st0 = Some r1"
    by blast
  with Inr show ?thesis
    by (cases r1) (simp_all add: calculate_win_probability_def)
qed

section \<open>The two counters are fair\<close>

lemma counter_rng_funpow: "((\<lambda>t. snd (counter_rng t)) ^^ m) s = s + m"
  by (induction m) (simp_all add: counter_rng_def)

lemma counter_rng_stream: "rng_stream counter_rng s m = s + m"
  unfolding rng_stream_def counter_rng_funpow by (simp add: counter_rng_def)

lemma counter_rng_fair: "fair counter_rng"
  unfolding fair_def
proof (intro allI impI)
  fix s n j :: nat
  assume j: "j < n"
  then obtain k where n: "n = Suc k" by (cases n) simp_all
  have "s + (k * s + j) = n * s + j" by (simp add: n)
  then have "rng_stream counter_rng s (k * s + j) = n * s + j"
    by (simp only: counter_rng_stream)
  with j have "rng_stream counter_rng s (k * s + j) mod n = j" by simp
  then show "\<exists>m. rng_stream counter_rng s m mod n = j" ..
qed

lemma twice_rng_funpow: "((\<lambda>t. snd (twice_rng t)) ^^ m) s = s + m"
  by (induction m) (simp_all add: twice_rng_def)

lemma twice_rng_stream: "rng_stream twice_rng s m = (s + m) div 2"
  unfolding rng_stream_def twice_rng_funpow by (simp add: twice_rng_def)

lemma twice_rng_fair: "fair twice_rng"
  unfolding fair_def
proof (intro allI impI)
  fix s n j :: nat
  assume j: "j < n"
  then obtain k where n: "n = Suc k" by (cases n) simp_all
  have "s + (s + 2 * (k * s) + 2 * j) = 2 * (n * s + j)" by (simp add: n)
  then have "rng_stream twice_rng s (s + 2 * (k * s) + 2 * j) = 2 * (n * s + j) div 2"
    by (simp only: twice_rng_stream)
  then have "rng_stream twice_rng s (s + 2 * (k * s) + 2 * j) = n * s + j" by simp
  with j have "rng_stream twice_rng s (s + 2 * (k * s) + 2 * j) mod n = j" by simp
  then show "\<exists>m. rng_stream twice_rng s m mod n = j" ..
qed

section \<open>Three inputs the caller accepts\<close>

lemma valid_input_flop: "valid_input [''As'', ''Kd''] [''Qs'', ''Jh'', ''9d'']"
  by (simp add: valid_input_def valid_ranks_def valid_suits_def)

lemma valid_input_preflop: "valid_input [''As'', ''Kd''] []"
  by (simp add: valid_input_def valid_ranks_def valid_suits_def)

lemma valid_input_river: "valid_input [''As'', ''Kd''] [''Qs'', ''Jh'', ''9d'', ''2c'', ''3h'']"
  by (simp add: valid_input_def valid_ranks_def valid_suits_def)

section \<open>What the loop leaves alone\<close>

lemma trial_frame:
  assumes "trial rank_of rnd board_cards num_players st = Some (Inr st')"
  shows "deck_cards st' = deck_cards st \<and> hole_card_ints st' = hole_card_ints st \<and>
         board_card_ints st' = board_card_ints st"
proof -
  from trial_Inr [OF assms] obtain w s' where "st' = st\<lparr>wins := w, rng_state := s'\<rparr>"
    by blast
  then show ?thesis by simp
qed

lemma run_trials_Suc_Inr:
  assumes "run_trials rank_of rnd board_cards num_players (Suc n) st = Some (Inr st')"
  shows "\<exists>st1. trial rank_of rnd board_cards num_players st = Some (Inr st1) \<and>
               run_trials rank_of rnd board_cards num_players n st1 = Some (Inr st')"
  using assms by (auto split: option.splits sum.splits)

text \<open>
  Claim C7: the loop changes nothing but the win counter and the generator. The state
  after \<open>n\<close> passes through the loop body, for every \<open>n\<close> (so after each single trial and
  after the whole loop), has the deck's card list, the hero's cards and the known board
  of the state the loop started from.
\<close>

theorem trial_loop_frame:
  assumes "run_trials rank_of rnd board_cards num_players n st = Some (Inr st')"
  shows "deck_cards st' = deck_cards st \<and> hole_card_ints st' = hole_card_ints st \<and>
         board_card_ints st' = board_card_ints st"
  using assms
proof (induction n arbitrary: st)
  case 0
  then show ?case by simp
next
  case (Suc n)
  from run_trials_Suc_Inr [OF Suc.prems] obtain st1 where
    t: "trial rank_of rnd board_cards num_players st = Some (Inr st1)"
    and r: "run_trials rank_of rnd board_cards num_players n st1 = Some (Inr st')"
    by blast
  from trial_frame [OF t] Suc.IH [OF r] show ?case by simp
qed

theorem trial_loop_frame_witness:
  "\<exists>st0 st'.
     initial_state counter_rng 0 [''As'', ''Kd''] [''Qs'', ''Jh'', ''9d''] = Inr st0 \<and>
     run_trials rank_sum counter_rng [''Qs'', ''Jh'', ''9d''] 3 10 st0 = Some (Inr st') \<and>
     deck_cards st' = deck_cards st0 \<and> hole_card_ints st' = hole_card_ints st0 \<and>
     board_card_ints st' = board_card_ints st0 \<and> length (deck_cards st') = 47"
proof -
  from cwp_returns [OF counter_rng_fair] obtain r where
    "calculate_win_probability rank_sum counter_rng 0 [''As'', ''Kd''] [''Qs'', ''Jh'', ''9d'']
       3 10 = Some r"
    by blast
  from cwp_Some [OF valid_input_flop _ _ _ this]
  obtain st0 w s' where
    i: "initial_state counter_rng 0 [''As'', ''Kd''] [''Qs'', ''Jh'', ''9d''] = Inr st0"
    and p: "prepared [''Qs'', ''Jh'', ''9d''] st0"
    and r: "run_trials rank_sum counter_rng [''Qs'', ''Jh'', ''9d''] 3 10 st0 =
              Some (Inr (st0\<lparr>wins := w, rng_state := s'\<rparr>))"
    by auto
  from p have "length (deck_cards st0) = 47" by (simp add: prepared_def)
  with i r trial_loop_frame [OF r] show ?thesis by simp
qed

section \<open>The range of the result\<close>

text \<open>
  Claim C10: for a valid input (two hole cards and at most five board cards, all
  accepted by \<open>validate_cards\<close> and all different, and a number of players the slider
  offers) and a positive number of simulations, whatever the call returns is
  \<open>w / num_simulations * 100\<close> for a win count \<open>w\<close> of at most \<open>num_simulations\<close>, a
  number from 0 to 100 and never an error; this for every generator. With a fair
  generator the call does return.
\<close>

theorem win_probability_range:
  assumes "valid_input hole_cards board_cards"
    and "2 \<le> num_players" and "num_players \<le> 10"
    and "0 < num_simulations"
  shows "(\<forall>r. calculate_win_probability rank_of rnd s0 hole_cards board_cards num_players
                 num_simulations = Some r \<longrightarrow>
              (\<exists>w p. r = Inr p \<and> w \<le> nat num_simulations \<and>
                     p = real w / real_of_int num_simulations * 100 \<and> 0 \<le> p \<and> p \<le> 100)) \<and>
         (fair rnd \<longrightarrow>
            (\<exists>r. calculate_win_probability rank_of rnd s0 hole_cards board_cards num_players
                    num_simulations = Some r))"
proof (intro conjI allI impI)
  fix r
  assume c: "calculate_win_probability rank_of rnd s0 hole_cards board_cards num_players
               num_simulations = Some r"
  from assms(3) have n: "num_players \<le> 23" by simp
  from cwp_Some [OF assms(1,2) n assms(4) c] obtain w where
    w: "w \<le> nat num_simulations"
    and r: "r = Inr (real w / real_of_int num_simulations * 100)"
    by blast
  define q where "q = real w / real_of_int num_simulations"
  from w assms(4) have "real w \<le> real_of_int num_simulations" by linarith
  with assms(4) have "q \<le> 1" "0 \<le> q" by (simp_all add: q_def)
  then have "0 \<le> q * 100" "q * 100 \<le> 100" by simp_all
  then have "0 \<le> real w / real_of_int num_simulations * 100"
    and "real w / real_of_int num_simulations * 100 \<le> 100"
    by (simp_all only: q_def)
  with w r show "\<exists>w p. r = Inr p \<and> w \<le> nat num_simulations \<and>
      p = real w / real_of_int num_simulations * 100 \<and> 0 \<le> p \<and> p \<le> 100"
    by blast
next
  assume "fair rnd"
  then show "\<exists>r. calculate_win_probability rank_of rnd s0 hole_cards board_cards num_players
      num_simulations = Some r"
    by (rule cwp_returns)
qed

theorem win_probability_range_witness:
  "\<exists>w p. calculate_win_probability rank_sum counter_rng 0 [''As'', ''Kd'']
            [''Qs'', ''Jh'', ''9d''] 4 10000 = Some (Inr p) \<and>
          w \<le> 10000 \<and> p = real w / 10000 * 100 \<and> 0 \<le> p \<and> p \<le> 100"
  using win_probability_range [OF valid_input_flop, of 4 10000 rank_sum counter_rng 0]
    counter_rng_fair
  by auto

section \<open>The number of players\<close>

text \<open>
  Claim C3 says that a number of players outside 2 to 10 is refused. The function has no
  check of \<open>num_players\<close> (the range is the slider's, in the caller): with eleven players,
  one simulation and the generator that counts up from 0, the call returns 100.
\<close>

theorem eleven_players_counterexample:
  "calculate_win_probability rank_sum counter_rng 0 [''As'', ''Kd''] [] 11 1 = Some (Inr 100)"
  by code_simp

text \<open>
  Claim C3 as amended: for valid cards, a positive number of simulations and any number
  of players from 2 to 23, eleven among them, no error is raised. Whatever the call
  returns is the share of wins, as a percentage, of a loop that ran all
  \<open>num_simulations\<close> trials after a setup that succeeded; this for every generator. With
  a fair generator the call does return.
\<close>

theorem player_count_not_checked:
  assumes "valid_input hole_cards board_cards"
    and "2 \<le> num_players" and "num_players \<le> 23"
    and "0 < num_simulations"
  shows "(\<forall>r. calculate_win_probability rank_of rnd s0 hole_cards board_cards num_players
                 num_simulations = Some r \<longrightarrow>
              (\<exists>st0 st'.
                 initial_state rnd s0 hole_cards board_cards = Inr st0 \<and>
                 run_trials rank_of rnd board_cards num_players (nat num_simulations) st0 =
                   Some (Inr st') \<and>
                 r = Inr (real (wins st') / real_of_int num_simulations * 100))) \<and>
         (fair rnd \<longrightarrow>
            (\<exists>r. calculate_win_probability rank_of rnd s0 hole_cards board_cards num_players
                    num_simulations = Some r))"
proof (intro conjI allI impI)
  fix r
  assume c: "calculate_win_probability rank_of rnd s0 hole_cards board_cards num_players
               num_simulations = Some r"
  from cwp_Some [OF assms c] obtain st0 w s' where
    i: "initial_state rnd s0 hole_cards board_cards = Inr st0"
    and t: "run_trials rank_of rnd board_cards num_players (nat num_simulations) st0 =
          Some (Inr (st0\<lparr>wins := w, rng_state := s'\<rparr>))"
    and r: "r = Inr (real w / real_of_int num_simulations * 100)"
    by blast
  let ?st' = "st0\<lparr>wins := w, rng_state := s'\<rparr>"
  have "wins ?st' = w" by simp
  with i t r show "\<exists>st0 st'.
       initial_state rnd s0 hole_cards board_cards = Inr st0 \<and>
       run_trials rank_of rnd board_cards num_players (nat num_simulations) st0 =
         Some (Inr st') \<and>
       r = Inr (real (wins st') / real_of_int num_simulations * 100)"
    by (intro exI [of _ st0] exI [of _ ?st']) simp
next
  assume "fair rnd"
  then show "\<exists>r. calculate_win_probability rank_of rnd s0 hole_cards board_cards num_players
      num_simulations = Some r"
    by (rule cwp_returns)
qed

theorem player_count_not_checked_witness:
  "\<exists>st0 st'.
     initial_state counter_rng 0 [''As'', ''Kd''] [] = Inr st0 \<and>
     run_trials rank_sum counter_rng [] 11 20 st0 = Some (Inr st') \<and>
     calculate_win_probability rank_sum counter_rng 0 [''As'', ''Kd''] [] 11 20 =
       Some (Inr (real (wins st') / 20 * 100))"
  using player_count_not_checked [OF valid_input_preflop, of 11 20 rank_sum counter_rng 0]
    counter_rng_fair
  by auto

section \<open>A complete board\<close>

lemma deal_full_board:
  assumes "length board_cards = 5"
  shows "deal rnd board_cards num_players st =
     (case deal_opponents rnd (deck_cards st) (nat (num_players - 1)) (rng_state st) of
        None \<Rightarrow> None
      | Some (Inl e) \<Rightarrow> Some (Inl e)
      | Some (Inr (opponents_hands, s1)) \<Rightarrow>
          Some (Inr (opponents_hands, [], board_card_ints st, s1)))"
  using assms
  by (simp add: deal_def deal_board_def sample_nothing split: option.splits sum.splits prod.splits)

text \<open>
  Claim C8: with five known board cards a trial draws for the opponents only. The sample
  for the board has size 0: it is empty and takes no number from the generator, whose
  state after the deal is the one the opponents' hands left. The board that the hero's
  and the opponents' hands are ranked on is the known board.
\<close>

theorem full_board_draws_nothing:
  assumes "length board_cards = 5"
    and "trial rank_of rnd board_cards num_players st = Some (Inr st')"
  shows "\<exists>opponents_hands.
           deal_opponents rnd (deck_cards st) (nat (num_players - 1)) (rng_state st) =
             Some (Inr (opponents_hands, rng_state st')) \<and>
           deal rnd board_cards num_players st =
             Some (Inr (opponents_hands, [], board_card_ints st, rng_state st')) \<and>
           count_win (wins st) (rank_of (board_card_ints st @ hole_card_ints st))
             (map (\<lambda>opp_hand. rank_of (board_card_ints st @ opp_hand)) opponents_hands) =
             Inr (wins st')"
proof -
  from trial_Inr [OF assms(2)] obtain hands rb fb s' w where
    d: "deal rnd board_cards num_players st = Some (Inr (hands, rb, fb, s'))"
    and c: "count_win (wins st) (rank_of (fb @ hole_card_ints st))
             (map (\<lambda>opp_hand. rank_of (fb @ opp_hand)) hands) = Inr w"
    and st': "st' = st\<lparr>wins := w, rng_state := s'\<rparr>"
    by blast
  from d have
    "deal_opponents rnd (deck_cards st) (nat (num_players - 1)) (rng_state st) =
          Some (Inr (hands, s')) \<and> rb = [] \<and> fb = board_card_ints st"
    unfolding deal_full_board [OF assms(1)]
    by (auto split: option.splits sum.splits)
  then have
    o: "deal_opponents rnd (deck_cards st) (nat (num_players - 1)) (rng_state st) =
          Some (Inr (hands, s'))"
    and rb: "rb = []" and fb: "fb = board_card_ints st"
    by simp_all
  from st' have "rng_state st' = s'" "wins st' = w" by simp_all
  with d c o rb fb show ?thesis by auto
qed

theorem full_board_draws_nothing_witness:
  "\<exists>st0 st' opponents_hands.
     initial_state counter_rng 0 [''As'', ''Kd''] [''Qs'', ''Jh'', ''9d'', ''2c'', ''3h''] = Inr st0 \<and>
     trial rank_sum counter_rng [''Qs'', ''Jh'', ''9d'', ''2c'', ''3h''] 2 st0 = Some (Inr st') \<and>
     deal_opponents counter_rng (deck_cards st0) 1 (rng_state st0) =
       Some (Inr (opponents_hands, rng_state st')) \<and>
     deal counter_rng [''Qs'', ''Jh'', ''9d'', ''2c'', ''3h''] 2 st0 =
       Some (Inr (opponents_hands, [], board_card_ints st0, rng_state st'))"
proof -
  let ?board = "[''Qs'', ''Jh'', ''9d'', ''2c'', ''3h'']"
  from initial_state_prepared [OF valid_input_river, of counter_rng 0] obtain st0 where
    i: "initial_state counter_rng 0 [''As'', ''Kd''] ?board = Inr st0"
    and p: "prepared ?board st0"
    by blast
  from trial_returns [OF counter_rng_fair, of rank_sum ?board 2 st0] obtain r where
    r: "trial rank_sum counter_rng ?board 2 st0 = Some r" by blast
  from trial_Some [OF p _ _ r] obtain st' where
    t: "trial rank_sum counter_rng ?board 2 st0 = Some (Inr st')"
    using r by auto
  have l: "length ?board = 5" by simp
  from full_board_draws_nothing [OF l t] obtain hands where
    "deal_opponents counter_rng (deck_cards st0) (nat (2 - 1)) (rng_state st0) =
       Some (Inr (hands, rng_state st'))"
    and "deal counter_rng ?board 2 st0 =
       Some (Inr (hands, [], board_card_ints st0, rng_state st'))"
    by blast
  with i t show ?thesis by auto
qed

section \<open>Ties\<close>

text \<open>
  Claim C2 as amended: a trial counts a win exactly when the hero's rank is lower than or
  equal to the rank of every opponent's hand on the final board. A trial in which the
  hero's rank equals the best rank among the opponents therefore adds a full win; there is
  no separate count for split pots.
\<close>

theorem trial_counts_tie_as_win:
  assumes "trial rank_of rnd board_cards num_players st = Some (Inr st')"
  shows "\<exists>opponents_hands remaining_board final_board s'.
           deal rnd board_cards num_players st =
             Some (Inr (opponents_hands, remaining_board, final_board, s')) \<and>
           wins st' =
             (if \<forall>opp_hand \<in> set opponents_hands.
                   rank_of (final_board @ hole_card_ints st) \<le> rank_of (final_board @ opp_hand)
              then wins st + 1 else wins st)"
proof -
  from trial_Inr [OF assms] obtain hands rb fb s' w where
    d: "deal rnd board_cards num_players st = Some (Inr (hands, rb, fb, s'))"
    and h: "hands \<noteq> []"
    and c: "count_win (wins st) (rank_of (fb @ hole_card_ints st))
             (map (\<lambda>opp_hand. rank_of (fb @ opp_hand)) hands) = Inr w"
    and st': "st' = st\<lparr>wins := w, rng_state := s'\<rparr>"
    by blast
  from h have "map (\<lambda>opp_hand. rank_of (fb @ opp_hand)) hands \<noteq> []" by simp
  from count_win_le [OF this, of "wins st" "rank_of (fb @ hole_card_ints st)"] c
  have "w = (if \<forall>opp_hand \<in> set hands.
                   rank_of (fb @ hole_card_ints st) \<le> rank_of (fb @ opp_hand)
              then wins st + 1 else wins st)"
    by simp
  moreover from st' have "wins st' = w" by simp
  ultimately show ?thesis using d by blast
qed

theorem trial_counts_tie_as_win_witness:
  "\<exists>st0 st' opponents_hands remaining_board final_board s'.
     initial_state counter_rng 0 [''As'', ''Kd''] [''Qs'', ''Jh'', ''9d''] = Inr st0 \<and>
     trial rank_sum counter_rng [''Qs'', ''Jh'', ''9d''] 3 st0 = Some (Inr st') \<and>
     deal counter_rng [''Qs'', ''Jh'', ''9d''] 3 st0 =
       Some (Inr (opponents_hands, remaining_board, final_board, s')) \<and>
     wins st' =
       (if \<forall>opp_hand \<in> set opponents_hands.
             rank_sum (final_board @ hole_card_ints st0) \<le> rank_sum (final_board @ opp_hand)
        then 1 else 0)"
proof -
  let ?board = "[''Qs'', ''Jh'', ''9d'']"
  from initial_state_prepared [OF valid_input_flop, of counter_rng 0] obtain st0 where
    i: "initial_state counter_rng 0 [''As'', ''Kd''] ?board = Inr st0"
    and p: "prepared ?board st0" and w: "wins st0 = 0"
    by blast
  from trial_returns [OF counter_rng_fair, of rank_sum ?board 3 st0] obtain r where
    r: "trial rank_sum counter_rng ?board 3 st0 = Some r" by blast
  from trial_Some [OF p _ _ r] obtain st' where
    t: "trial rank_sum counter_rng ?board 3 st0 = Some (Inr st')"
    using r by auto
  from trial_counts_tie_as_win [OF t] obtain hands rb fb s' where
    d: "deal counter_rng ?board 3 st0 = Some (Inr (hands, rb, fb, s'))"
    and e: "wins st' =
       (if \<forall>opp_hand \<in> set hands.
             rank_sum (fb @ hole_card_ints st0) \<le> rank_sum (fb @ opp_hand)
        then wins st0 + 1 else wins st0)"
    by blast
  from e w have "wins st' =
       (if \<forall>opp_hand \<in> set hands.
             rank_sum (fb @ hole_card_ints st0) \<le> rank_sum (fb @ opp_hand)
        then 1 else 0)"
    by simp
  with i t d show ?thesis by blast
qed

section \<open>Two opponents can hold the same card\<close>

lemma twice_state:
  "initial_state twice_rng 0 [''As'', ''Kd''] [] =
     Inr \<lparr>deck_cards =
        [2102541, 33560861, 67127839, 1065995, 8394515, 4199953, 8406803,
         4212241, 2114829, 16783383, 16795671, 33573149, 67115551,
         134224677, 268454953, 1057803, 1082379, 1053707, 2106637, 557831,
         2131213, 541447, 4204049, 533255, 4228625, 529159, 8398611, 295429,
         8423187, 279045, 16787479, 270853, 16812055, 266757, 33564957,
         164099, 33589533, 147715, 67119647, 139523, 67144223, 135427,
         134228773, 98306, 134253349, 81922, 268446761, 73730, 268471337,
         69634],
        hole_card_ints = [268442665, 134236965], board_card_ints = [],
        wins = 0, rng_state = 51\<rparr>"
  by code_simp

lemma twice_opponents:
  "deal_opponents twice_rng
        [2102541, 33560861, 67127839, 1065995, 8394515, 4199953, 8406803,
         4212241, 2114829, 16783383, 16795671, 33573149, 67115551,
         134224677, 268454953, 1057803, 1082379, 1053707, 2106637, 557831,
         2131213, 541447, 4204049, 533255, 4228625, 529159, 8398611, 295429,
         8423187, 279045, 16787479, 270853, 16812055, 266757, 33564957,
         164099, 33589533, 147715, 67119647, 139523, 67144223, 135427,
         134228773, 98306, 134253349, 81922, 268446761, 73730, 268471337,
         69634] 2 51 = Some (Inr ([[529159, 8398611], [8398611, 295429]], 55))"
  by code_simp

lemma twice_board:
  "deal_board twice_rng
        [2102541, 33560861, 67127839, 1065995, 8394515, 4199953, 8406803,
         4212241, 2114829, 16783383, 16795671, 33573149, 67115551,
         134224677, 268454953, 1057803, 1082379, 1053707, 2106637, 557831,
         2131213, 541447, 4204049, 533255, 4228625, 529159, 8398611, 295429,
         8423187, 279045, 16787479, 270853, 16812055, 266757, 33564957,
         164099, 33589533, 147715, 67119647, 139523, 67144223, 135427,
         134228773, 98306, 134253349, 81922, 268446761, 73730, 268471337,
         69634] [] [[529159, 8398611], [8398611, 295429]] 55
     = Some (Inr ([16787479, 270853, 16812055, 266757, 33564957], 63))"
  by code_simp

text \<open>
  Claim C1 fails on the code for three players. Each opponent's hand is a sample of its
  own from the whole remaining deck, and only the board's sample leaves out the cards
  already dealt. After the setup for the hero's \<open>As Kd\<close> and an empty board, with the
  generator that gives every number twice, the first trial of a three-player call draws
  the positions 25 and 26 of the deck for the first opponent and the positions 26 and 27
  for the second: the hands are \<open>5s 9h\<close> and \<open>9h 4c\<close>, and \<open>9h\<close> (the card 8398611) is in
  both. The board \<open>Th 4h Tc 4s Jh\<close> is drawn from the other 47 cards.
\<close>

theorem opponents_share_a_card:
  "\<exists>st0.
     initial_state twice_rng 0 [''As'', ''Kd''] [] = Inr st0 \<and>
     deal twice_rng [] 3 st0 =
       Some (Inr ([[529159, 8398611], [8398611, 295429]],
                  [16787479, 270853, 16812055, 266757, 33564957],
                  [16787479, 270853, 16812055, 266757, 33564957], 63)) \<and>
     map int_to_str [529159, 8398611, 295429] = [Inr ''5s'', Inr ''9h'', Inr ''4c'']"
proof -
  have n: "nat (3 - 1) = 2" by simp
  have "map int_to_str [529159, 8398611, 295429] = [Inr ''5s'', Inr ''9h'', Inr ''4c'']"
    by code_simp
  then show ?thesis
    unfolding twice_state
    by (simp add: deal_def n twice_opponents twice_board)
qed

end
